theory Spec2Isabelle
  imports Main "HOL-Library.Word"
begin

section \<open>Incremental marking (src/heap/incremental-marking.cc): data model\<close>

text \<open>
  Heap objects are pointer-aligned, so an object is identified by the index of its first
  word (its address divided by kPointerSize). The mark bitmap has one bit per word, so
  the first mark bit of the object at word \<open>a\<close> is bit \<open>a\<close>, and the second is bit
  \<open>a + 1\<close>. Two objects one word apart share a bit: the second bit of the first is the
  first bit of the second (the overlap that NotifyLeftTrimming handles).

  An \<open>Object*\<close> is either a small integer or a pointer to a heap object.
\<close>

type_synonym addr = nat

datatype object = Smi int | HeapObject addr

datatype State = STOPPED | SWEEPING | MARKING | COMPLETE

datatype CompletionAction = GC_VIA_STACK_GUARD | NO_GC_VIA_STACK_GUARD

datatype ForceCompletionAction = FORCE_COMPLETION | DO_NOT_FORCE_COMPLETION

datatype StepOrigin = kV8 | kTask

datatype GCRequestType = NONE | COMPLETE_MARKING | FINALIZATION

datatype RecordWriteStubMode = STORE_BUFFER_ONLY | INCREMENTAL | INCREMENTAL_COMPACTION

datatype MapWord = MapPointer addr | ForwardingAddress addr

datatype VisitorId = kVisitFixedArray | kVisitNativeContext | kVisitOther

datatype SpaceId = NEW_SPACE | OLD_SPACE | CODE_SPACE | MAP_SPACE | LO_SPACE

datatype Observer = new_generation_observer | old_generation_observer

text \<open>A slot is a field of an object: the object and the byte offset of the field.\<close>

datatype slot = RawField addr int

text \<open>
  The run-time flags, the build macro V8_CONCURRENT_MARKING and the two constants of the
  header that the file reads. They are declared outside the file, so they are
  parameters of the model.
\<close>

record Flags =
  FLAG_concurrent_marking :: bool
  V8_CONCURRENT_MARKING :: bool
  FLAG_incremental_marking :: bool
  FLAG_black_allocation :: bool
  FLAG_never_compact :: bool
  FLAG_concurrent_sweeping :: bool
  FLAG_retain_maps_for_n_gc :: int
  FLAG_max_incremental_marking_finalization_rounds :: int
  FLAG_min_progress_during_incremental_marking_finalization :: int
  kAllocatedThreshold :: "64 word"
  kMaxIdleMarkingDelayCounter :: int

subsection \<open>Mark bits\<close>

text \<open>
  Modelled from the spec: the mark-bit store (marking.h is not part of the sources).
  Colours are two bits: White 00, Grey 10, Black 11, and 01 is impossible. A bitmap is
  the set of the indices of its set bits.
\<close>

type_synonym bitmap = "nat set"

definition IsWhite :: "bitmap \<Rightarrow> addr \<Rightarrow> bool" where
  "IsWhite bm obj = (obj \<notin> bm \<and> Suc obj \<notin> bm)"

definition IsGrey :: "bitmap \<Rightarrow> addr \<Rightarrow> bool" where
  "IsGrey bm obj = (obj \<in> bm \<and> Suc obj \<notin> bm)"

definition IsBlack :: "bitmap \<Rightarrow> addr \<Rightarrow> bool" where
  "IsBlack bm obj = (obj \<in> bm \<and> Suc obj \<in> bm)"

definition IsImpossible :: "bitmap \<Rightarrow> addr \<Rightarrow> bool" where
  "IsImpossible bm obj = (obj \<notin> bm \<and> Suc obj \<in> bm)"

text \<open>
  Modelled from the spec: WhiteToGrey sets the first bit 0 to 1 while the second bit
  stays 0, and is true iff the transition succeeded.
\<close>

definition WhiteToGrey :: "bitmap \<Rightarrow> addr \<Rightarrow> bitmap \<times> bool" where
  "WhiteToGrey bm obj = (if IsWhite bm obj then (insert obj bm, True) else (bm, False))"

text \<open>
  Modelled from the spec: GreyToBlack sets the second bit 0 to 1 when the first bit is 1,
  and is true iff it succeeded.
\<close>

definition GreyToBlack :: "bitmap \<Rightarrow> addr \<Rightarrow> bitmap \<times> bool" where
  "GreyToBlack bm obj = (if IsGrey bm obj then (insert (Suc obj) bm, True) else (bm, False))"

text \<open>
  Modelled from the spec: WhiteToBlack is WhiteToGrey then GreyToBlack, true iff both
  succeeded (the second is not tried when the first fails).
\<close>

definition WhiteToBlack :: "bitmap \<Rightarrow> addr \<Rightarrow> bitmap \<times> bool" where
  "WhiteToBlack bm obj =
     (case WhiteToGrey bm obj of
        (bm1, True) \<Rightarrow> GreyToBlack bm1 obj
      | (bm1, False) \<Rightarrow> (bm1, False))"

text \<open>Modelled from the spec: BlackToGrey takes the second bit from 1 to 0.\<close>

definition BlackToGrey :: "bitmap \<Rightarrow> addr \<Rightarrow> bitmap" where
  "BlackToGrey bm obj = bm - {Suc obj}"

subsection \<open>Marking worklist\<close>

text \<open>
  Modelled from the spec: the marking worklist (mark-compact.h is not part of the
  sources). Push appends and may fail when the worklist is full; PushBailout hands an
  object to the bailout queue, which Pop drains first; Pop returns none when both are
  empty; Update rewrites every entry with a callback that keeps and replaces it, or
  drops it. A capacity of \<open>None\<close> is a worklist that is never full.
\<close>

record MarkingWorklist =
  shared :: "addr list"
  bailout :: "addr list"
  capacity :: "nat option"

definition IsFull :: "MarkingWorklist \<Rightarrow> bool" where
  "IsFull wl = (case capacity wl of None \<Rightarrow> False | Some c \<Rightarrow> c \<le> length (shared wl))"

definition IsEmpty :: "MarkingWorklist \<Rightarrow> bool" where
  "IsEmpty wl = (shared wl = [] \<and> bailout wl = [])"

definition Size :: "MarkingWorklist \<Rightarrow> int" where
  "Size wl = int (length (shared wl)) + int (length (bailout wl))"

definition Push :: "MarkingWorklist \<Rightarrow> addr \<Rightarrow> MarkingWorklist \<times> bool" where
  "Push wl obj =
     (if IsFull wl then (wl, False) else (wl\<lparr>shared := shared wl @ [obj]\<rparr>, True))"

definition PushBailout :: "MarkingWorklist \<Rightarrow> addr \<Rightarrow> MarkingWorklist" where
  "PushBailout wl obj = wl\<lparr>bailout := bailout wl @ [obj]\<rparr>"

definition Pop :: "MarkingWorklist \<Rightarrow> addr option \<times> MarkingWorklist" where
  "Pop wl =
     (if bailout wl \<noteq> [] then (Some (last (bailout wl)), wl\<lparr>bailout := butlast (bailout wl)\<rparr>)
      else if shared wl \<noteq> [] then (Some (last (shared wl)), wl\<lparr>shared := butlast (shared wl)\<rparr>)
      else (None, wl))"

definition Update :: "(addr \<Rightarrow> addr option) \<Rightarrow> MarkingWorklist \<Rightarrow> MarkingWorklist" where
  "Update callback wl =
     wl\<lparr>shared := List.map_filter callback (shared wl),
        bailout := List.map_filter callback (bailout wl)\<rparr>"

subsection \<open>The marker's state\<close>

text \<open>
  The fields of IncrementalMarking, together with the state of its collaborators that
  the file writes: the two mark bitmaps (internal and external marking state), the
  worklist, the slots recorded with the compacting collector, the progress bar of each
  chunk, the page flags, the retained maps, the code stubs, the allocation observers of
  each space and the stack guard's pending GC request. Fields of type \<open>size_t\<close> are
  64-bit words.

  The retained-maps array holds pairs: entry \<open>k\<close> of the list is the weak cell at array
  index \<open>2 * k\<close> (\<open>None\<close> when cleared) and the age at index \<open>2 * k + 1\<close>.

  Two fields are observation logs that the code does not have: \<open>retain_maps_calls\<close>
  counts the calls of RetainMaps and \<open>visited_ranges\<close> lists the ranges handed to
  VisitPointers by VisitFixedArray. No function of the model reads them.
\<close>

record CodeStub =
  IsKey :: bool
  MajorKeyIsRecordWrite :: bool
  IsCode :: bool
  stub_mode :: RecordWriteStubMode

record IncrementalMarking =
  state :: State
  is_compacting :: bool
  should_hurry :: bool
  was_activated :: bool
  black_allocation :: bool
  finalize_marking_completed :: bool
  request_type :: GCRequestType
  initial_old_generation_size :: "64 word"
  old_generation_allocation_counter :: "64 word"
  bytes_allocated :: "64 word"
  bytes_marked_ahead_of_schedule :: "64 word"
  unscanned_bytes_of_large_object :: int
  idle_marking_delay_counter :: int
  incremental_marking_finalization_rounds :: int
  marking_bitmap :: bitmap
  external_bitmap :: bitmap
  worklist :: MarkingWorklist
  recorded_slots :: "(addr \<times> slot \<times> addr) list"
  progress_bar :: "nat \<Rightarrow> int"
  POINTERS_TO_HERE_ARE_INTERESTING :: "nat set"
  POINTERS_FROM_HERE_ARE_INTERESTING :: "nat set"
  retained_maps :: "(addr option \<times> int) list"
  code_stubs :: "CodeStub list"
  allocation_observers :: "SpaceId \<Rightarrow> Observer set"
  stack_guard_gc_requested :: bool
  retain_maps_calls :: nat
  visited_ranges :: "(addr \<times> int \<times> int) list"

text \<open>
  What the file reads of the heap and of its other collaborators without writing it:
  the object graph (map words, sizes, fields, the visitor of an object's map), the
  chunk of an object and the chunk's flags, the spaces, the roots, and the answers of
  the heap, the sweeper, the compacting collector and the embedder tracer to the
  queries the file makes. They are parameters of the model. \<open>visitor_id\<close> is keyed by
  the map, \<open>body_slots\<close> lists the pointer fields that the body descriptor of an object
  iterates, and \<open>linear_allocation_area\<close> is the set of mark bits of the current
  allocation area of a space.

  \<open>StepSizeToMakeProgress_result\<close> and \<open>max_step_size\<close> stand for two results computed
  in floating point from the clock (lines 1083 to 1102 and 1118 to 1120).
\<close>

record Heap =
  map_word :: "addr \<Rightarrow> MapWord"
  SizeFromMap :: "addr \<Rightarrow> int"
  IsFiller :: "addr \<Rightarrow> bool"
  visitor_id :: "addr \<Rightarrow> VisitorId"
  field :: "slot \<Rightarrow> object"
  body_slots :: "addr \<Rightarrow> slot list"
  normalized_map_cache :: "addr \<Rightarrow> object"
  IsUndefined :: "object \<Rightarrow> bool"
  GetConstructor :: "addr \<Rightarrow> object"
  prototype :: "addr \<Rightarrow> object"
  chunk_of :: "addr \<Rightarrow> nat"
  HAS_PROGRESS_BAR :: "nat \<Rightarrow> bool"
  SWEEP_TO_ITERATE :: "nat \<Rightarrow> bool"
  InFromSpace :: "addr \<Rightarrow> bool"
  InToSpace :: "addr \<Rightarrow> bool"
  one_pointer_filler_map :: addr
  strong_roots :: "object list"
  space_pages :: "SpaceId \<Rightarrow> nat list"
  linear_allocation_area :: "SpaceId \<Rightarrow> nat set"
  number_of_disposed_maps :: int
  ShouldReduceMemory :: bool
  ShouldAbortIncrementalMarking :: bool
  serializer_enabled :: bool
  gc_state_is_NOT_IN_GC :: bool
  always_allocate :: bool
  sweeping_in_progress :: bool
  AreSweeperTasksRunning :: bool
  StartCompaction :: bool
  OldGenerationAllocationCounter :: "64 word"
  PromotedSpaceSizeOfObjects :: "64 word"
  NumberOfCachedWrappersToTrace :: "64 word"
  ShouldFinalizeIncrementalMarking :: bool
  StepSizeToMakeProgress_result :: "64 word"
  max_step_size :: "64 word"

section \<open>WhiteToGreyAndPush\<close>

text \<open>
  Lines 114 to 120. The result of Push is not looked at: when the worklist is full the
  object stays Grey and is not queued.
\<close>

definition WhiteToGreyAndPush :: "IncrementalMarking \<Rightarrow> addr \<Rightarrow> IncrementalMarking \<times> bool" where
  "WhiteToGreyAndPush s obj =
     (case WhiteToGrey (marking_bitmap s) obj of
        (bm, True) \<Rightarrow>
          (s\<lparr>marking_bitmap := bm, worklist := fst (Push (worklist s) obj)\<rparr>, True)
      | (bm, False) \<Rightarrow> (s, False))"

section \<open>The write barrier\<close>

text \<open>
  The predicates on the state that the header declares: IsStopped, IsMarking and
  IsComplete. Stop leaves the incremental write barrier only when IsMarking holds, and
  Finalize calls Stop right after Hurry has set the state to COMPLETE, so IsMarking
  holds in the states MARKING and COMPLETE.
\<close>

definition IsStopped :: "IncrementalMarking \<Rightarrow> bool" where
  "IsStopped s = (state s = STOPPED)"

definition IsMarking :: "IncrementalMarking \<Rightarrow> bool" where
  "IsMarking s = (state s = MARKING \<or> state s = COMPLETE)"

definition IsComplete :: "IncrementalMarking \<Rightarrow> bool" where
  "IsComplete s = (state s = COMPLETE)"

text \<open>
  Modelled from the spec: RestartIfNotMarking is declared in the header, which is not
  part of the sources. When a transition happened and marking is paused mid-cycle (the
  state is COMPLETE), stepping restarts: the state goes back to MARKING.
\<close>

definition RestartIfNotMarking :: "IncrementalMarking \<Rightarrow> IncrementalMarking" where
  "RestartIfNotMarking s = (if state s = COMPLETE then s\<lparr>state := MARKING\<rparr> else s)"

text \<open>
  Modelled from the spec: MarkCompactCollector::RecordSlot registers the slot with the
  compacting collector. \<open>recorded_slots\<close> lists the slots handed to it, in order.
\<close>

definition RecordSlot :: "IncrementalMarking \<Rightarrow> addr \<Rightarrow> slot \<Rightarrow> addr \<Rightarrow> IncrementalMarking" where
  "RecordSlot s host p target = s\<lparr>recorded_slots := recorded_slots s @ [(host, p, target)]\<rparr>"

text \<open>
  Lines 54 to 67. The two DCHECKs (neither colour is impossible) are debug-only and
  change nothing. The conjunction short-circuits: WhiteToGreyAndPush runs only when
  need_recording holds.
\<close>

definition BaseRecordWrite :: "Flags \<Rightarrow> IncrementalMarking \<Rightarrow> addr \<Rightarrow> addr \<Rightarrow> IncrementalMarking \<times> bool" where
  "BaseRecordWrite fl s obj value_heap_obj =
     (let need_recording =
            (FLAG_concurrent_marking fl \<or> IsBlack (marking_bitmap s) obj);
          s1 = (if need_recording
                then (case WhiteToGreyAndPush s value_heap_obj of
                        (s', True) \<Rightarrow> RestartIfNotMarking s'
                      | (s', False) \<Rightarrow> s')
                else s)
      in (s1, is_compacting s1 \<and> need_recording))"

text \<open>Lines 70 to 76. A null slot pointer is \<open>None\<close>.\<close>

definition RecordWriteSlow :: "Flags \<Rightarrow> IncrementalMarking \<Rightarrow> addr \<Rightarrow> slot option \<Rightarrow> addr \<Rightarrow> IncrementalMarking" where
  "RecordWriteSlow fl s obj slot_ptr val =
     (case BaseRecordWrite fl s obj val of
        (s1, record_it) \<Rightarrow>
          (case slot_ptr of
             Some p \<Rightarrow> (if record_it then RecordSlot s1 obj p val else s1)
           | None \<Rightarrow> s1))"

section \<open>Left trimming\<close>

text \<open>
  Lines 136 to 195. The mark bit of an object is the index of its first word, Next() is
  the following index, and \<open>from->address() + kPointerSize == to->address()\<close> is
  \<open>Suc from = to\<close>. The DCHECKs are debug-only: the model is the release build, and the
  theorems name the assertions they rely on.
\<close>

definition NotifyLeftTrimming :: "Flags \<Rightarrow> IncrementalMarking \<Rightarrow> addr \<Rightarrow> addr \<Rightarrow> IncrementalMarking" where
  "NotifyLeftTrimming fl s from_obj to_obj =
     (let old_mark_bit = from_obj; new_mark_bit = to_obj in
      if black_allocation s \<and> IsBlack (marking_bitmap s) new_mark_bit then s
      else
        (case (if FLAG_concurrent_marking fl
               then GreyToBlack (fst (WhiteToGrey (marking_bitmap s) old_mark_bit)) old_mark_bit
               else (marking_bitmap s, False)) of
           (bm, marked_black_due_to_left_trimming) \<Rightarrow>
             if IsBlack bm old_mark_bit \<and> \<not> marked_black_due_to_left_trimming then
               (if Suc from_obj = to_obj
                then s\<lparr>marking_bitmap := insert (Suc new_mark_bit) bm\<rparr>
                else s\<lparr>marking_bitmap := fst (WhiteToBlack bm new_mark_bit)\<rparr>)
             else if IsGrey bm old_mark_bit \<or> marked_black_due_to_left_trimming then
               RestartIfNotMarking
                 (s\<lparr>marking_bitmap :=
                      (if Suc from_obj = to_obj then insert new_mark_bit bm
                       else fst (WhiteToGrey bm new_mark_bit)),
                    worklist := fst (Push (worklist s) to_obj)\<rparr>)
             else s\<lparr>marking_bitmap := bm\<rparr>))"

section \<open>The marking visitor\<close>

text \<open>
  The pointer size and the offset of the first element of a FixedArray (after the map
  word and the length) are declared outside the file; these are their values on a 64-bit
  target. kProgressBarScanningChunk is line 202.
\<close>

definition kPointerSize :: int where
  "kPointerSize = 8"

definition kStartOffset :: int where
  "kStartOffset = 16"

definition kProgressBarScanningChunk :: int where
  "kProgressBarScanningChunk = 32 * 1024"

text \<open>The map of an object, read from its map word (\<open>obj->map()\<close>).\<close>

definition object_map :: "Heap \<Rightarrow> addr \<Rightarrow> addr" where
  "object_map h obj = (case map_word h obj of MapPointer m \<Rightarrow> m | ForwardingAddress a \<Rightarrow> a)"

text \<open>Lines 274 to 280 and the body of the loop of lines 284 to 290; MarkObject is lines 294 to 296.\<close>

definition VisitPointer :: "Heap \<Rightarrow> IncrementalMarking \<Rightarrow> addr \<Rightarrow> slot \<Rightarrow> IncrementalMarking" where
  "VisitPointer h s host p =
     (case field h p of
        HeapObject target \<Rightarrow> fst (WhiteToGreyAndPush (RecordSlot s host p target) target)
      | Smi n \<Rightarrow> s)"

text \<open>
  Lines 282 to 291: the slots from byte offset \<open>p\<close> up to, not including, \<open>end_offset\<close>,
  one pointer apart.
\<close>

function VisitPointers :: "Heap \<Rightarrow> IncrementalMarking \<Rightarrow> addr \<Rightarrow> int \<Rightarrow> int \<Rightarrow> IncrementalMarking" where
  "VisitPointers h s host p end_offset =
     (if p < end_offset
      then VisitPointers h (VisitPointer h s host (RawField host p)) host (p + kPointerSize) end_offset
      else s)"
  by pat_completeness auto
termination
  by (relation "measure (\<lambda>(h, s, host, p, e). nat (e - p))") (auto simp: kPointerSize_def)

declare VisitPointers.simps [simp del]

text \<open>
  Modelled from the spec: MarkCompactCollector::PushBlack (not part of the sources)
  pushes a Black object; when the push fails because the worklist is full, the caller
  falls back to BlackToGrey.
\<close>

definition PushBlack :: "IncrementalMarking \<Rightarrow> addr \<Rightarrow> IncrementalMarking" where
  "PushBlack s obj =
     (case Push (worklist s) obj of
        (wl, True) \<Rightarrow> s\<lparr>worklist := wl\<rparr>
      | (wl, False) \<Rightarrow> s\<lparr>marking_bitmap := BlackToGrey (marking_bitmap s) obj\<rparr>)"

text \<open>
  Modelled from the spec: NotifyIncompleteScanOfObject (declared in the header) reports
  the unscanned bytes of a large object to the controller.
\<close>

definition NotifyIncompleteScanOfObject :: "IncrementalMarking \<Rightarrow> int \<Rightarrow> IncrementalMarking" where
  "NotifyIncompleteScanOfObject s unscanned_bytes =
     s\<lparr>unscanned_bytes_of_large_object := unscanned_bytes\<rparr>"

text \<open>
  The do-while loop of lines 238 to 244. It returns the state and the final
  \<open>start_offset\<close>. Each round appends the range it scans to \<open>visited_ranges\<close>.
\<close>

function VisitFixedArray_loop ::
  "Heap \<Rightarrow> IncrementalMarking \<Rightarrow> addr \<Rightarrow> int \<Rightarrow> int \<Rightarrow> int \<Rightarrow> IncrementalMarking \<times> int" where
  "VisitFixedArray_loop h s object object_size start_offset end_offset =
     (let s1 = (VisitPointers h s object start_offset end_offset)
                \<lparr>visited_ranges := visited_ranges s @ [(object, start_offset, end_offset)]\<rparr>;
          start_offset' = end_offset;
          end_offset' = min object_size (end_offset + kProgressBarScanningChunk);
          scan_until_end = IsFull (worklist s1)
      in if scan_until_end \<and> start_offset' < object_size
         then VisitFixedArray_loop h s1 object object_size start_offset' end_offset'
         else (s1, start_offset'))"
  by pat_completeness auto
termination
  by (relation "measure (\<lambda>(h, s, obj, size, start, e). nat (size - e))")
     (auto simp: kProgressBarScanningChunk_def)

declare VisitFixedArray_loop.simps [simp del]

text \<open>
  Lines 209 to 255. The two branches of \<open>#ifdef V8_CONCURRENT_MARKING\<close> are chosen by
  the flag of that name. Without the progress bar, IterateBody of a FixedArray visits
  the pointers from kStartOffset to the object size. The result is the state and the
  object size.
\<close>

definition VisitFixedArray :: "Flags \<Rightarrow> Heap \<Rightarrow> IncrementalMarking \<Rightarrow> addr \<Rightarrow> IncrementalMarking \<times> int" where
  "VisitFixedArray fl h s object =
     (let chunk = chunk_of h object;
          object_size = SizeFromMap h object
      in if HAS_PROGRESS_BAR h chunk then
           (let start_offset = max kStartOffset (progress_bar s chunk)
            in if start_offset < object_size then
                 (let s1 = (if V8_CONCURRENT_MARKING fl
                            then s\<lparr>worklist := PushBailout (worklist s) object\<rparr>
                            else if IsGrey (marking_bitmap s) object
                                 then s\<lparr>worklist := fst (Push (worklist s) object)\<rparr>
                                 else PushBlack s object);
                      end_offset = min object_size (start_offset + kProgressBarScanningChunk);
                      already_scanned_offset = start_offset
                  in case VisitFixedArray_loop h s1 object object_size start_offset end_offset of
                       (s2, start_offset') \<Rightarrow>
                         (let s3 = s2\<lparr>progress_bar := (progress_bar s2)(chunk := start_offset')\<rparr>
                          in if start_offset' < object_size
                             then (NotifyIncompleteScanOfObject s3
                                     (object_size - (start_offset' - already_scanned_offset)),
                                   object_size)
                             else (s3, object_size)))
               else (s, object_size))
         else (VisitPointers h s object kStartOffset object_size, object_size))"

text \<open>
  Lines 257 to 272. The cache is made Grey when it is White, and is not pushed.
  Parent::VisitNativeContext is not part of the sources; modelled from the spec, it
  scans the pointer fields of the context like any other body.
\<close>

definition IterateBody :: "Heap \<Rightarrow> IncrementalMarking \<Rightarrow> addr \<Rightarrow> IncrementalMarking" where
  "IterateBody h s obj = foldl (\<lambda>s' p. VisitPointer h s' obj p) s (body_slots h obj)"

definition VisitNativeContext :: "Heap \<Rightarrow> IncrementalMarking \<Rightarrow> addr \<Rightarrow> IncrementalMarking \<times> int" where
  "VisitNativeContext h s context =
     (let cache = normalized_map_cache h context;
          s1 = (if \<not> IsUndefined h cache
                then (case cache of
                        HeapObject heap_obj \<Rightarrow>
                          s\<lparr>marking_bitmap := fst (WhiteToGrey (marking_bitmap s) heap_obj)\<rparr>
                      | Smi n \<Rightarrow> s)
                else s)
      in (IterateBody h s1 context, SizeFromMap h context))"

text \<open>
  Modelled from the spec: the visitor is a dispatch on the type descriptor (the map) of
  the object; MarkingVisitor::Visit is not part of the sources. Objects other than
  fixed arrays and native contexts have their pointer fields scanned.
\<close>

definition Visit :: "Flags \<Rightarrow> Heap \<Rightarrow> IncrementalMarking \<Rightarrow> addr \<Rightarrow> addr \<Rightarrow> IncrementalMarking \<times> int" where
  "Visit fl h s map_obj obj =
     (case visitor_id h map_obj of
        kVisitFixedArray \<Rightarrow> VisitFixedArray fl h s obj
      | kVisitNativeContext \<Rightarrow> VisitNativeContext h s obj
      | kVisitOther \<Rightarrow> (IterateBody h s obj, SizeFromMap h obj))"

text \<open>Lines 820 to 839. A failed GreyToBlack leaves the bitmap as it is.\<close>

definition VisitObject :: "Flags \<Rightarrow> Heap \<Rightarrow> IncrementalMarking \<Rightarrow> addr \<Rightarrow> addr \<Rightarrow> IncrementalMarking" where
  "VisitObject fl h s map_obj obj =
     (let s1 = s\<lparr>marking_bitmap := fst (GreyToBlack (marking_bitmap s) obj)\<rparr>;
          s2 = fst (WhiteToGreyAndPush s1 map_obj)
      in fst (Visit fl h s2 map_obj obj))"

section \<open>Finalization\<close>

text \<open>Lines 325 to 330 and 628 to 634: every strong root that is a heap object.\<close>

definition MarkObjectByPointer :: "IncrementalMarking \<Rightarrow> object \<Rightarrow> IncrementalMarking" where
  "MarkObjectByPointer s obj =
     (case obj of Smi n \<Rightarrow> s | HeapObject a \<Rightarrow> fst (WhiteToGreyAndPush s a))"

definition MarkRoots :: "Heap \<Rightarrow> IncrementalMarking \<Rightarrow> IncrementalMarking" where
  "MarkRoots h s = foldl MarkObjectByPointer s (strong_roots h)"

text \<open>Lines 636 to 653.\<close>

definition ShouldRetainMap :: "Heap \<Rightarrow> IncrementalMarking \<Rightarrow> addr \<Rightarrow> int \<Rightarrow> bool" where
  "ShouldRetainMap h s map_obj age =
     (if age = 0 then False
      else (case GetConstructor h map_obj of
              Smi n \<Rightarrow> False
            | HeapObject constructor \<Rightarrow> \<not> IsWhite (marking_bitmap s) constructor))"

text \<open>
  The body of the loop of lines 669 to 700 for the entry at array index \<open>i\<close>: the
  state after it and the age stored at index \<open>i + 1\<close>. A cleared cell is skipped.
\<close>

definition RetainMaps_entry ::
  "Flags \<Rightarrow> Heap \<Rightarrow> bool \<Rightarrow> int \<Rightarrow> addr option \<times> int \<Rightarrow> IncrementalMarking \<Rightarrow> IncrementalMarking \<times> int" where
  "RetainMaps_entry fl h map_retaining_is_disabled i entry s =
     (case entry of
        (None, age) \<Rightarrow> (s, age)
      | (Some map_obj, age) \<Rightarrow>
          if i \<ge> number_of_disposed_maps h \<and> \<not> map_retaining_is_disabled \<and>
             IsWhite (marking_bitmap s) map_obj
          then
            (let s1 = (if ShouldRetainMap h s map_obj age
                       then fst (WhiteToGreyAndPush s map_obj) else s)
             in (case prototype h map_obj of
                   HeapObject proto \<Rightarrow>
                     if age > 0 \<and> IsWhite (marking_bitmap s1) proto
                     then (s1, age - 1) else (s1, age)
                 | Smi n \<Rightarrow> (s1, age)))
          else (s, FLAG_retain_maps_for_n_gc fl))"

fun RetainMaps_loop ::
  "Flags \<Rightarrow> Heap \<Rightarrow> bool \<Rightarrow> int \<Rightarrow> (addr option \<times> int) list \<Rightarrow> IncrementalMarking \<Rightarrow>
   IncrementalMarking \<times> (addr option \<times> int) list" where
  "RetainMaps_loop fl h disabled i [] s = (s, [])"
| "RetainMaps_loop fl h disabled i (entry # rest) s =
     (case RetainMaps_entry fl h disabled i entry s of
        (s1, new_age) \<Rightarrow>
          (case RetainMaps_loop fl h disabled (i + 2) rest s1 of
             (s2, rest') \<Rightarrow> (s2, (fst entry, new_age) # rest')))"

text \<open>Lines 656 to 701.\<close>

definition RetainMaps :: "Flags \<Rightarrow> Heap \<Rightarrow> IncrementalMarking \<Rightarrow> IncrementalMarking" where
  "RetainMaps fl h s =
     (let map_retaining_is_disabled =
            (ShouldReduceMemory h \<or> ShouldAbortIncrementalMarking h \<or>
             FLAG_retain_maps_for_n_gc fl = 0)
      in case RetainMaps_loop fl h map_retaining_is_disabled 0 (retained_maps s) s of
           (s1, maps) \<Rightarrow>
             s1\<lparr>retained_maps := maps, retain_maps_calls := Suc (retain_maps_calls s1)\<rparr>)"

text \<open>
  Lines 585 to 596 and 611 to 619. Modelled from the spec: MarkAllocationInfoBlack
  colours the current allocation area of the space Black, so that the allocator serves
  new blocks pre-coloured.
\<close>

definition StartBlackAllocation :: "Heap \<Rightarrow> IncrementalMarking \<Rightarrow> IncrementalMarking" where
  "StartBlackAllocation h s =
     s\<lparr>black_allocation := True,
       marking_bitmap := marking_bitmap s \<union> linear_allocation_area h OLD_SPACE \<union>
                         linear_allocation_area h MAP_SPACE \<union>
                         linear_allocation_area h CODE_SPACE\<rparr>"

definition FinishBlackAllocation :: "IncrementalMarking \<Rightarrow> IncrementalMarking" where
  "FinishBlackAllocation s = (if black_allocation s then s\<lparr>black_allocation := False\<rparr> else s)"

text \<open>
  Lines 703 to 753. \<open>static_cast<int>\<close> of the cached-wrapper count keeps its low 32
  bits, read as a signed value. The round counter is an \<open>int\<close> that Epilogue resets to
  0; the model does not bound it.
\<close>

definition static_cast_int :: "64 word \<Rightarrow> int" where
  "static_cast_int w = sint (ucast w :: 32 word)"

text \<open>
  Lines 724 to 727 store the sum of the worklist size and the wrapper count in an
  \<open>int\<close>: the variable holds the low 32 bits of the sum, read as a signed value.
\<close>

definition stored_in_int :: "int \<Rightarrow> int" where
  "stored_in_int x = sint (word_of_int x :: 32 word)"

definition FinalizeIncrementally :: "Flags \<Rightarrow> Heap \<Rightarrow> IncrementalMarking \<Rightarrow> IncrementalMarking" where
  "FinalizeIncrementally fl h s =
     (let s1 = MarkRoots h s;
          s2 = (if incremental_marking_finalization_rounds s1 = 0
                then RetainMaps fl h s1 else s1);
          marking_progress =
            stored_in_int
              (Size (worklist s2) + static_cast_int (NumberOfCachedWrappersToTrace h));
          s3 = s2\<lparr>incremental_marking_finalization_rounds :=
                    incremental_marking_finalization_rounds s2 + 1\<rparr>;
          s4 = (if incremental_marking_finalization_rounds s3 \<ge>
                     FLAG_max_incremental_marking_finalization_rounds fl \<or>
                   marking_progress <
                     FLAG_min_progress_during_incremental_marking_finalization fl
                then s3\<lparr>finalize_marking_completed := True\<rparr> else s3)
      in if FLAG_black_allocation fl \<and> \<not> ShouldReduceMemory h \<and> \<not> black_allocation s4
         then StartBlackAllocation h s4 else s4)"

section \<open>Page flags, code stubs, Start and Stop\<close>

text \<open>Lines 335 to 356. A page flag is the set of the chunks that have it.\<close>

definition SetOldSpacePageFlags :: "IncrementalMarking \<Rightarrow> nat \<Rightarrow> bool \<Rightarrow> bool \<Rightarrow> IncrementalMarking" where
  "SetOldSpacePageFlags s chunk is_marking_arg is_compacting_arg =
     (if is_marking_arg
      then s\<lparr>POINTERS_TO_HERE_ARE_INTERESTING := insert chunk (POINTERS_TO_HERE_ARE_INTERESTING s),
             POINTERS_FROM_HERE_ARE_INTERESTING := insert chunk (POINTERS_FROM_HERE_ARE_INTERESTING s)\<rparr>
      else s\<lparr>POINTERS_TO_HERE_ARE_INTERESTING := POINTERS_TO_HERE_ARE_INTERESTING s - {chunk},
             POINTERS_FROM_HERE_ARE_INTERESTING := insert chunk (POINTERS_FROM_HERE_ARE_INTERESTING s)\<rparr>)"

definition SetNewSpacePageFlags :: "IncrementalMarking \<Rightarrow> nat \<Rightarrow> bool \<Rightarrow> IncrementalMarking" where
  "SetNewSpacePageFlags s chunk is_marking_arg =
     (let s1 = s\<lparr>POINTERS_TO_HERE_ARE_INTERESTING :=
                   insert chunk (POINTERS_TO_HERE_ARE_INTERESTING s)\<rparr>
      in if is_marking_arg
         then s1\<lparr>POINTERS_FROM_HERE_ARE_INTERESTING :=
                   insert chunk (POINTERS_FROM_HERE_ARE_INTERESTING s1)\<rparr>
         else s1\<lparr>POINTERS_FROM_HERE_ARE_INTERESTING :=
                   POINTERS_FROM_HERE_ARE_INTERESTING s1 - {chunk}\<rparr>)"

text \<open>Lines 359 to 410: the loops over the pages of each space.\<close>

definition DeactivateIncrementalWriteBarrier :: "Heap \<Rightarrow> IncrementalMarking \<Rightarrow> IncrementalMarking" where
  "DeactivateIncrementalWriteBarrier h s =
     (let s1 = foldl (\<lambda>t p. SetOldSpacePageFlags t p False False) s (space_pages h OLD_SPACE);
          s2 = foldl (\<lambda>t p. SetOldSpacePageFlags t p False False) s1 (space_pages h MAP_SPACE);
          s3 = foldl (\<lambda>t p. SetOldSpacePageFlags t p False False) s2 (space_pages h CODE_SPACE);
          s4 = foldl (\<lambda>t p. SetNewSpacePageFlags t p False) s3 (space_pages h NEW_SPACE)
      in foldl (\<lambda>t lop. SetOldSpacePageFlags t lop False False) s4 (space_pages h LO_SPACE))"

definition ActivateIncrementalWriteBarrier :: "Heap \<Rightarrow> IncrementalMarking \<Rightarrow> IncrementalMarking" where
  "ActivateIncrementalWriteBarrier h s =
     (let c = is_compacting s;
          s1 = foldl (\<lambda>t p. SetOldSpacePageFlags t p True c) s (space_pages h OLD_SPACE);
          s2 = foldl (\<lambda>t p. SetOldSpacePageFlags t p True c) s1 (space_pages h MAP_SPACE);
          s3 = foldl (\<lambda>t p. SetOldSpacePageFlags t p True c) s2 (space_pages h CODE_SPACE);
          s4 = foldl (\<lambda>t p. SetNewSpacePageFlags t p True) s3 (space_pages h NEW_SPACE)
      in foldl (\<lambda>t lop. SetOldSpacePageFlags t lop True c) s4 (space_pages h LO_SPACE))"

text \<open>
  Lines 441 to 460: every entry of the stubs dictionary that is a key, whose major key
  is RecordWrite and whose value is code, is patched to the mode.
\<close>

definition PatchIncrementalMarkingRecordWriteStubs ::
  "IncrementalMarking \<Rightarrow> RecordWriteStubMode \<Rightarrow> IncrementalMarking" where
  "PatchIncrementalMarkingRecordWriteStubs s mode =
     s\<lparr>code_stubs :=
         map (\<lambda>e. if IsKey e \<and> MajorKeyIsRecordWrite e \<and> IsCode e
                   then e\<lparr>stub_mode := mode\<rparr> else e)
             (code_stubs s)\<rparr>"

text \<open>
  Modelled from the spec: StartUsing resets the per-cycle state of the worklist before a
  new marking cycle.
\<close>

definition StartUsing :: "MarkingWorklist \<Rightarrow> MarkingWorklist" where
  "StartUsing wl = wl\<lparr>shared := [], bailout := []\<rparr>"

text \<open>
  Lines 521 to 583. The calls that write nothing of the model (the embedder's
  TracePrologue, the compilation cache, ScheduleTasks) are left out.
\<close>

definition StartMarking :: "Flags \<Rightarrow> Heap \<Rightarrow> IncrementalMarking \<Rightarrow> IncrementalMarking" where
  "StartMarking fl h s =
     (if serializer_enabled h then s
      else
        (let s1 = s\<lparr>is_compacting := (\<not> FLAG_never_compact fl \<and> StartCompaction h)\<rparr>;
             s2 = s1\<lparr>state := MARKING\<rparr>;
             mode = (if is_compacting s2 then INCREMENTAL_COMPACTION else INCREMENTAL);
             s3 = PatchIncrementalMarkingRecordWriteStubs s2 mode;
             s4 = s3\<lparr>worklist := StartUsing (worklist s3)\<rparr>;
             s5 = ActivateIncrementalWriteBarrier h s4;
             s6 = (if FLAG_concurrent_marking fl \<and> \<not> black_allocation s5
                   then StartBlackAllocation h s5 else s5)
         in MarkRoots h s6))"

text \<open>The spaces in the order of SpaceIterator, and the observer of each (lines 507 to 515).\<close>

definition all_spaces :: "SpaceId list" where
  "all_spaces = [NEW_SPACE, OLD_SPACE, CODE_SPACE, MAP_SPACE, LO_SPACE]"

definition observer_of :: "SpaceId \<Rightarrow> Observer" where
  "observer_of space = (if space = NEW_SPACE then new_generation_observer
                        else old_generation_observer)"

definition AddAllocationObserver :: "IncrementalMarking \<Rightarrow> SpaceId \<Rightarrow> IncrementalMarking" where
  "AddAllocationObserver s space =
     s\<lparr>allocation_observers :=
         (allocation_observers s)(space := insert (observer_of space) (allocation_observers s space))\<rparr>"

definition RemoveAllocationObserver :: "IncrementalMarking \<Rightarrow> SpaceId \<Rightarrow> IncrementalMarking" where
  "RemoveAllocationObserver s space =
     s\<lparr>allocation_observers :=
         (allocation_observers s)(space := allocation_observers s space - {observer_of space})\<rparr>"

text \<open>Lines 462 to 518. The clock reading \<open>start_time_ms_\<close> and the tracing are left out.\<close>

definition Start :: "Flags \<Rightarrow> Heap \<Rightarrow> IncrementalMarking \<Rightarrow> IncrementalMarking" where
  "Start fl h s =
     (let s1 = s\<lparr>initial_old_generation_size := PromotedSpaceSizeOfObjects h,
                 old_generation_allocation_counter := OldGenerationAllocationCounter h,
                 bytes_allocated := 0,
                 bytes_marked_ahead_of_schedule := 0,
                 should_hurry := False,
                 was_activated := True\<rparr>;
          s2 = (if \<not> sweeping_in_progress h then StartMarking fl h s1
                else s1\<lparr>state := SWEEPING\<rparr>)
      in foldl AddAllocationObserver s2 all_spaces)"

text \<open>Lines 936 to 970.\<close>

definition Stop :: "Heap \<Rightarrow> IncrementalMarking \<Rightarrow> IncrementalMarking" where
  "Stop h s =
     (if IsStopped s then s
      else
        (let s1 = foldl RemoveAllocationObserver s all_spaces;
             s2 = s1\<lparr>should_hurry := False\<rparr>;
             s3 = (if IsMarking s2
                   then DeactivateIncrementalWriteBarrier h
                          (PatchIncrementalMarkingRecordWriteStubs s2 STORE_BUFFER_ONLY)
                   else s2);
             s4 = s3\<lparr>stack_guard_gc_requested := False\<rparr>;
             s5 = s4\<lparr>state := STOPPED\<rparr>;
             s6 = s5\<lparr>is_compacting := False\<rparr>
         in FinishBlackAllocation s6))"

section \<open>Scavenge integration\<close>

text \<open>
  The callback of lines 760 to 811: \<open>Some out\<close> when it returns true, \<open>None\<close> when it
  returns false. \<open>Page::FromAddress(obj->address())\<close> is the chunk of the object, and the
  external marking state is the external bitmap.
\<close>

definition scavenge_callback :: "Heap \<Rightarrow> IncrementalMarking \<Rightarrow> addr \<Rightarrow> addr \<Rightarrow> addr option" where
  "scavenge_callback h s filler_map obj =
     (if InFromSpace h obj then
        (case map_word h obj of
           MapPointer m \<Rightarrow> None
         | ForwardingAddress dest \<Rightarrow> Some dest)
      else if InToSpace h obj then
        (if IsGrey (external_bitmap s) obj then Some obj else None)
      else
        (if SWEEP_TO_ITERATE h (chunk_of h obj) then
           (if IsGrey (external_bitmap s) obj then Some obj else None)
         else if object_map h obj \<noteq> filler_map then Some obj
         else None))"

text \<open>Lines 755 to 812.\<close>

definition UpdateMarkingWorklistAfterScavenge :: "Heap \<Rightarrow> IncrementalMarking \<Rightarrow> IncrementalMarking" where
  "UpdateMarkingWorklistAfterScavenge h s =
     (if \<not> IsMarking s then s
      else
        (let filler_map = one_pointer_filler_map h
         in s\<lparr>worklist := Update (scavenge_callback h s filler_map) (worklist s)\<rparr>))"

section \<open>Steps\<close>

text \<open>Lines 979 to 1016.\<close>

definition FinalizeMarking :: "IncrementalMarking \<Rightarrow> CompletionAction \<Rightarrow> IncrementalMarking" where
  "FinalizeMarking s action =
     (let s1 = s\<lparr>request_type := FINALIZATION\<rparr>
      in if action = GC_VIA_STACK_GUARD then s1\<lparr>stack_guard_gc_requested := True\<rparr> else s1)"

definition MarkingComplete :: "IncrementalMarking \<Rightarrow> CompletionAction \<Rightarrow> IncrementalMarking" where
  "MarkingComplete s action =
     (let s1 = s\<lparr>state := COMPLETE, should_hurry := True, request_type := COMPLETE_MARKING\<rparr>
      in if action = GC_VIA_STACK_GUARD then s1\<lparr>stack_guard_gc_requested := True\<rparr> else s1)"

definition Epilogue :: "IncrementalMarking \<Rightarrow> IncrementalMarking" where
  "Epilogue s = s\<lparr>was_activated := False, finalize_marking_completed := False,
                   incremental_marking_finalization_rounds := 0\<rparr>"

text \<open>
  Lines 1063 to 1073. After EnsureSweepingCompleted the sweeping is no longer in
  progress.
\<close>

definition FinalizeSweeping :: "Flags \<Rightarrow> Heap \<Rightarrow> IncrementalMarking \<Rightarrow> IncrementalMarking" where
  "FinalizeSweeping fl h s =
     (let still_in_progress =
            (if sweeping_in_progress h \<and>
                (\<not> FLAG_concurrent_sweeping fl \<or> \<not> AreSweeperTasksRunning h)
             then False else sweeping_in_progress h)
      in if \<not> still_in_progress then StartMarking fl h s else s)"

text \<open>
  The loop of lines 865 to 880, with the running count \<open>bytes_processed\<close>. Nothing
  bounds the number of rounds, so not returning is the value \<open>None\<close>.
\<close>

partial_function (option) ProcessMarkingWorklist_loop ::
  "Flags \<Rightarrow> Heap \<Rightarrow> int \<Rightarrow> ForceCompletionAction \<Rightarrow> IncrementalMarking \<Rightarrow> int \<Rightarrow>
   (IncrementalMarking \<times> int) option" where
  "ProcessMarkingWorklist_loop fl h bytes_to_process completion s bytes_processed =
     (if bytes_processed < bytes_to_process \<or> completion = FORCE_COMPLETION then
        (case Pop (worklist s) of
           (None, wl) \<Rightarrow> Some (s, bytes_processed)
         | (Some obj, wl) \<Rightarrow>
             if IsFiller h obj
             then ProcessMarkingWorklist_loop fl h bytes_to_process completion
                    (s\<lparr>worklist := wl\<rparr>) bytes_processed
             else ProcessMarkingWorklist_loop fl h bytes_to_process completion
                    (VisitObject fl h
                       (s\<lparr>worklist := wl, unscanned_bytes_of_large_object := 0\<rparr>)
                       (object_map h obj) obj)
                    (bytes_processed + SizeFromMap h obj -
                       unscanned_bytes_of_large_object
                         (VisitObject fl h
                            (s\<lparr>worklist := wl, unscanned_bytes_of_large_object := 0\<rparr>)
                            (object_map h obj) obj)))
      else Some (s, bytes_processed))"

declare ProcessMarkingWorklist_loop.simps [code]

text \<open>Lines 862 to 887. Registering the wrappers with the embedder writes nothing of the model.\<close>

definition ProcessMarkingWorklist ::
  "Flags \<Rightarrow> Heap \<Rightarrow> IncrementalMarking \<Rightarrow> int \<Rightarrow> ForceCompletionAction \<Rightarrow>
   (IncrementalMarking \<times> int) option" where
  "ProcessMarkingWorklist fl h s bytes_to_process completion =
     ProcessMarkingWorklist_loop fl h bytes_to_process completion s 0"

text \<open>Lines 1202 to 1209.\<close>

definition IsIdleMarkingDelayCounterLimitReached :: "Flags \<Rightarrow> IncrementalMarking \<Rightarrow> bool" where
  "IsIdleMarkingDelayCounterLimitReached fl s =
     (idle_marking_delay_counter s > kMaxIdleMarkingDelayCounter fl)"

definition IncrementIdleMarkingDelayCounter :: "IncrementalMarking \<Rightarrow> IncrementalMarking" where
  "IncrementIdleMarkingDelayCounter s =
     s\<lparr>idle_marking_delay_counter := idle_marking_delay_counter s + 1\<rparr>"

text \<open>
  Lines 1142 to 1199. The \<open>size_t\<close> budget is passed to ProcessMarkingWorklist as an
  \<open>intptr_t\<close> (its signed reading) and the \<open>intptr_t\<close> result comes back as a
  \<open>size_t\<close>; the call leaves the completion argument at its default in the header,
  DO_NOT_FORCE_COMPLETION. The calls to the concurrent marker, the tracer and the
  embedder write nothing of the model.
\<close>

definition Step ::
  "Flags \<Rightarrow> Heap \<Rightarrow> IncrementalMarking \<Rightarrow> 64 word \<Rightarrow> CompletionAction \<Rightarrow> ForceCompletionAction \<Rightarrow>
   StepOrigin \<Rightarrow> (IncrementalMarking \<times> 64 word) option" where
  "Step fl h s bytes_to_process action completion step_origin =
     (let s1 = (if state s = SWEEPING then FinalizeSweeping fl h s else s)
      in if state s1 = MARKING then
           (case ProcessMarkingWorklist fl h s1 (sint bytes_to_process) DO_NOT_FORCE_COMPLETION of
              None \<Rightarrow> None
            | Some (s2, n) \<Rightarrow>
                (let bytes_processed = (word_of_int n :: 64 word);
                     s3 = (if step_origin = kTask
                           then s2\<lparr>bytes_marked_ahead_of_schedule :=
                                     bytes_marked_ahead_of_schedule s2 + bytes_processed\<rparr>
                           else s2);
                     s4 = (if IsEmpty (worklist s3) then
                             (if ShouldFinalizeIncrementalMarking h then
                                (if completion = FORCE_COMPLETION \<or>
                                    IsIdleMarkingDelayCounterLimitReached fl s3
                                 then (if \<not> finalize_marking_completed s3
                                       then FinalizeMarking s3 action
                                       else MarkingComplete s3 action)
                                 else IncrementIdleMarkingDelayCounter s3)
                              else s3)
                           else s3)
                 in Some (s4, bytes_processed)))
         else Some (s1, 0))"

text \<open>Lines 1075 to 1081: the state after the call and the result.\<close>

definition StepSizeToKeepUpWithAllocations :: "Heap \<Rightarrow> IncrementalMarking \<Rightarrow> IncrementalMarking \<times> 64 word" where
  "StepSizeToKeepUpWithAllocations h s =
     (let current_counter = OldGenerationAllocationCounter h;
          s1 = s\<lparr>bytes_allocated :=
                    bytes_allocated s + (current_counter - old_generation_allocation_counter s),
                  old_generation_allocation_counter := current_counter\<rparr>
      in (s1, bytes_allocated s1))"

text \<open>Lines 1104 to 1140.\<close>

definition AdvanceIncrementalMarkingOnAllocation ::
  "Flags \<Rightarrow> Heap \<Rightarrow> IncrementalMarking \<Rightarrow> IncrementalMarking option" where
  "AdvanceIncrementalMarkingOnAllocation fl h s =
     (if \<not> gc_state_is_NOT_IN_GC h \<or> \<not> FLAG_incremental_marking fl \<or>
         (state s \<noteq> SWEEPING \<and> state s \<noteq> MARKING) \<or> always_allocate h
      then Some s
      else
        (case StepSizeToKeepUpWithAllocations h s of
           (s1, keep_up) \<Rightarrow>
             (let bytes_to_process = keep_up + StepSizeToMakeProgress_result h
              in if bytes_to_process \<ge> kAllocatedThreshold fl then
                   (let bytes_to_process' = min bytes_to_process (max_step_size h)
                    in if bytes_marked_ahead_of_schedule s1 \<ge> bytes_to_process' then
                         (let s2 = s1\<lparr>bytes_marked_ahead_of_schedule :=
                                        bytes_marked_ahead_of_schedule s1 - bytes_to_process'\<rparr>;
                              bytes_processed = bytes_to_process'
                          in Some (s2\<lparr>bytes_allocated :=
                                        bytes_allocated s2 - min (bytes_allocated s2) bytes_processed\<rparr>))
                       else
                         (case Step fl h s1 bytes_to_process' GC_VIA_STACK_GUARD
                                 FORCE_COMPLETION kV8 of
                            None \<Rightarrow> None
                          | Some (s2, bytes_processed) \<Rightarrow>
                              Some (s2\<lparr>bytes_allocated :=
                                         bytes_allocated s2 - min (bytes_allocated s2) bytes_processed\<rparr>)))
                 else Some s1)))"

section \<open>Repeated steps\<close>

text \<open>
  Step called \<open>n\<close> times in a row with the same arguments and nothing in between: no
  allocation, no store and no other entry point of the marker.
\<close>

fun Step_repeatedly ::
  "nat \<Rightarrow> Flags \<Rightarrow> Heap \<Rightarrow> 64 word \<Rightarrow> CompletionAction \<Rightarrow> ForceCompletionAction \<Rightarrow> StepOrigin \<Rightarrow>
   IncrementalMarking \<Rightarrow> IncrementalMarking option" where
  "Step_repeatedly 0 fl h bytes_to_process action completion step_origin s = Some s"
| "Step_repeatedly (Suc n) fl h bytes_to_process action completion step_origin s =
     (case Step fl h s bytes_to_process action completion step_origin of
        None \<Rightarrow> None
      | Some (s', bytes_processed) \<Rightarrow>
          Step_repeatedly n fl h bytes_to_process action completion step_origin s')"

section \<open>A relation for the proofs\<close>

text \<open>
  \<open>only_marking_changed s s'\<close>: the state \<open>s'\<close> differs from \<open>s\<close> at most in the
  marking bitmap, where bits were only set, and in the worklist.
\<close>

definition only_marking_changed :: "IncrementalMarking \<Rightarrow> IncrementalMarking \<Rightarrow> bool" where
  "only_marking_changed s s' =
     (\<exists>bm wl. s' = s\<lparr>marking_bitmap := bm, worklist := wl\<rparr> \<and> marking_bitmap s \<subseteq> bm)"

text \<open>All the entries of a worklist: the shared queue, then the bailout queue.\<close>

definition entries :: "MarkingWorklist \<Rightarrow> addr list" where
  "entries wl = shared wl @ bailout wl"

text \<open>
  A measure for the marking loop, over the objects below a bound \<open>B\<close>. \<open>white_count\<close> is
  the number of clear mark bits below \<open>B\<close>; \<open>remaining_scan\<close> is the number of bytes of a
  FixedArray with a progress bar that lie past the bar; \<open>marking_potential\<close> adds the
  length of the worklist, twice the clear bits and three times the bytes left to scan.
  \<open>heap_bounded\<close> says that every reference and every map of the heap lies below \<open>B\<close>,
  and \<open>worklist_bounded\<close> that every worklist entry does.
\<close>

definition white_count :: "nat \<Rightarrow> IncrementalMarking \<Rightarrow> nat" where
  "white_count B s = card {i. i < B \<and> i \<notin> marking_bitmap s}"

definition remaining_scan :: "Heap \<Rightarrow> IncrementalMarking \<Rightarrow> addr \<Rightarrow> nat" where
  "remaining_scan h s obj =
     (if visitor_id h (object_map h obj) = kVisitFixedArray \<and> HAS_PROGRESS_BAR h (chunk_of h obj)
      then nat (SizeFromMap h obj - max kStartOffset (progress_bar s (chunk_of h obj)))
      else 0)"

definition queue_potential :: "nat \<Rightarrow> IncrementalMarking \<Rightarrow> nat" where
  "queue_potential B s = length (entries (worklist s)) + 2 * white_count B s"

definition marking_potential :: "Heap \<Rightarrow> nat \<Rightarrow> IncrementalMarking \<Rightarrow> nat" where
  "marking_potential h B s = queue_potential B s + 3 * (\<Sum>obj < B. remaining_scan h s obj)"

definition heap_bounded :: "Heap \<Rightarrow> nat \<Rightarrow> bool" where
  "heap_bounded h B = ((\<forall>p a. field h p = HeapObject a \<longrightarrow> a < B) \<and> (\<forall>obj. object_map h obj < B))"

definition worklist_bounded :: "nat \<Rightarrow> IncrementalMarking \<Rightarrow> bool" where
  "worklist_bounded B s = (\<forall>obj \<in> set (entries (worklist s)). obj < B)"

text \<open>
  The invariant of a visit started in \<open>s0\<close>: the entries stay below the bound, the
  worklist and the clear bits together have not grown, and the progress bars are as they were.
\<close>

definition visit_inv :: "nat \<Rightarrow> IncrementalMarking \<Rightarrow> IncrementalMarking \<Rightarrow> bool" where
  "visit_inv B s0 t =
     (worklist_bounded B t \<and> queue_potential B t \<le> queue_potential B s0 \<and>
      progress_bar t = progress_bar s0)"

text \<open>
  \<open>only_visitor_changed s s'\<close>: the state \<open>s'\<close> differs from \<open>s\<close> at most in the fields
  that the marking visitor writes.
\<close>

definition only_visitor_changed :: "IncrementalMarking \<Rightarrow> IncrementalMarking \<Rightarrow> bool" where
  "only_visitor_changed s s' =
     (s'\<lparr>marking_bitmap := marking_bitmap s, worklist := worklist s,
         recorded_slots := recorded_slots s, progress_bar := progress_bar s,
         unscanned_bytes_of_large_object := unscanned_bytes_of_large_object s,
         visited_ranges := visited_ranges s\<rparr> = s)"

text \<open>
  The step size that AdvanceIncrementalMarkingOnAllocation computes (lines 1111 to 1120),
  and the condition under which it takes the branch of line 1124 that consumes the
  credit of the background tasks instead of calling Step.
\<close>

definition step_size_on_allocation :: "Heap \<Rightarrow> IncrementalMarking \<Rightarrow> 64 word" where
  "step_size_on_allocation h s =
     min (snd (StepSizeToKeepUpWithAllocations h s) + StepSizeToMakeProgress_result h)
         (max_step_size h)"

definition consumes_credit :: "Flags \<Rightarrow> Heap \<Rightarrow> IncrementalMarking \<Rightarrow> bool" where
  "consumes_credit fl h s =
     (gc_state_is_NOT_IN_GC h \<and> FLAG_incremental_marking fl \<and>
      (state s = SWEEPING \<or> state s = MARKING) \<and> \<not> always_allocate h \<and>
      snd (StepSizeToKeepUpWithAllocations h s) + StepSizeToMakeProgress_result h
        \<ge> kAllocatedThreshold fl \<and>
      bytes_marked_ahead_of_schedule s \<ge> step_size_on_allocation h s)"


text \<open>
  The write barrier at rest, for the pages of the spaces: every RecordWrite stub is in
  store-buffer-only mode and the flags of every page are as
  DeactivateIncrementalWriteBarrier leaves them. \<open>inactive_invariant\<close> says that a
  marker in STOPPED or SWEEPING has the barrier at rest and is neither compacting nor
  allocating black; \<open>keeps_barrier\<close> relates two states of which the second is in
  MARKING or COMPLETE, or has the state, the stubs, the page flags and the two flags of
  the first.
\<close>

definition barrier_idle :: "(SpaceId \<Rightarrow> nat list) \<Rightarrow> IncrementalMarking \<Rightarrow> bool" where
  "barrier_idle pages s =
     ((\<forall>e \<in> set (code_stubs s).
          IsKey e \<and> MajorKeyIsRecordWrite e \<and> IsCode e \<longrightarrow> stub_mode e = STORE_BUFFER_ONLY) \<and>
      (\<forall>p \<in> set (pages OLD_SPACE) \<union> set (pages MAP_SPACE) \<union>
             set (pages CODE_SPACE) \<union> set (pages LO_SPACE).
          p \<notin> POINTERS_TO_HERE_ARE_INTERESTING s \<and> p \<in> POINTERS_FROM_HERE_ARE_INTERESTING s) \<and>
      (\<forall>p \<in> set (pages NEW_SPACE).
          p \<in> POINTERS_TO_HERE_ARE_INTERESTING s \<and> p \<notin> POINTERS_FROM_HERE_ARE_INTERESTING s))"

definition inactive_invariant :: "(SpaceId \<Rightarrow> nat list) \<Rightarrow> IncrementalMarking \<Rightarrow> bool" where
  "inactive_invariant pages s =
     (state s = STOPPED \<or> state s = SWEEPING \<longrightarrow>
        barrier_idle pages s \<and> \<not> is_compacting s \<and> \<not> black_allocation s)"

definition keeps_barrier :: "IncrementalMarking \<Rightarrow> IncrementalMarking \<Rightarrow> bool" where
  "keeps_barrier s s' =
     (state s' = MARKING \<or> state s' = COMPLETE \<or>
      (state s' = state s \<and> code_stubs s' = code_stubs s \<and>
       POINTERS_TO_HERE_ARE_INTERESTING s' = POINTERS_TO_HERE_ARE_INTERESTING s \<and>
       POINTERS_FROM_HERE_ARE_INTERESTING s' = POINTERS_FROM_HERE_ARE_INTERESTING s \<and>
       is_compacting s' = is_compacting s \<and> black_allocation s' = black_allocation s))"

text \<open>
  The states that the marker reaches, for fixed pages: it is constructed stopped, with
  the barrier at rest (lines 34 to 52), and then driven through the entry points of the
  file. Start is called in STOPPED and FinalizeIncrementally while marking (the DCHECKs
  of lines 476 and 706).
\<close>

inductive reachable :: "(SpaceId \<Rightarrow> nat list) \<Rightarrow> IncrementalMarking \<Rightarrow> bool"
  for pages :: "SpaceId \<Rightarrow> nat list" where
  stopped: "state s = STOPPED \<Longrightarrow> barrier_idle pages s \<Longrightarrow> \<not> is_compacting s \<Longrightarrow>
            \<not> black_allocation s \<Longrightarrow> reachable pages s"
| Start: "reachable pages s \<Longrightarrow> state s = STOPPED \<Longrightarrow> space_pages h = pages \<Longrightarrow>
          reachable pages (Start fl h s)"
| Stop: "reachable pages s \<Longrightarrow> space_pages h = pages \<Longrightarrow> reachable pages (Stop h s)"
| Step: "reachable pages s \<Longrightarrow> space_pages h = pages \<Longrightarrow>
         Step fl h s bytes_to_process action completion step_origin = Some (s', n) \<Longrightarrow>
         reachable pages s'"
| AdvanceIncrementalMarkingOnAllocation:
    "reachable pages s \<Longrightarrow> space_pages h = pages \<Longrightarrow>
     AdvanceIncrementalMarkingOnAllocation fl h s = Some s' \<Longrightarrow> reachable pages s'"
| FinalizeIncrementally:
    "reachable pages s \<Longrightarrow> IsMarking s \<Longrightarrow> space_pages h = pages \<Longrightarrow>
     reachable pages (FinalizeIncrementally fl h s)"
| RecordWriteSlow:
    "reachable pages s \<Longrightarrow> reachable pages (RecordWriteSlow fl s obj slot_ptr val)"
| NotifyLeftTrimming:
    "reachable pages s \<Longrightarrow> reachable pages (NotifyLeftTrimming fl s from_obj to_obj)"
| UpdateMarkingWorklistAfterScavenge:
    "reachable pages s \<Longrightarrow> space_pages h = pages \<Longrightarrow>
     reachable pages (UpdateMarkingWorklistAfterScavenge h s)"
| Epilogue: "reachable pages s \<Longrightarrow> reachable pages (Epilogue s)"

text \<open>No page of new space is a page of another space.\<close>

definition pages_disjoint :: "(SpaceId \<Rightarrow> nat list) \<Rightarrow> bool" where
  "pages_disjoint pages =
     (set (pages NEW_SPACE) \<inter>
        (set (pages OLD_SPACE) \<union> set (pages MAP_SPACE) \<union> set (pages CODE_SPACE) \<union>
         set (pages LO_SPACE)) = {})"

section \<open>Example flags, heap and state\<close>

text \<open>
  A non-concurrent build with the default flags, and a marker in the MARKING state with
  clean mark bits and an empty, unbounded worklist. The witnesses and the
  counterexamples below start from these.
\<close>

definition example_flags :: Flags where
  "example_flags = \<lparr>FLAG_concurrent_marking = False, V8_CONCURRENT_MARKING = False,
     FLAG_incremental_marking = True, FLAG_black_allocation = True,
     FLAG_never_compact = False, FLAG_concurrent_sweeping = True,
     FLAG_retain_maps_for_n_gc = 2,
     FLAG_max_incremental_marking_finalization_rounds = 3,
     FLAG_min_progress_during_incremental_marking_finalization = 32,
     kAllocatedThreshold = 65536, kMaxIdleMarkingDelayCounter = 3\<rparr>"

definition example_state :: IncrementalMarking where
  "example_state = \<lparr>state = MARKING, is_compacting = False, should_hurry = False,
     was_activated = True, black_allocation = False, finalize_marking_completed = False,
     request_type = NONE, initial_old_generation_size = 0,
     old_generation_allocation_counter = 0, bytes_allocated = 0,
     bytes_marked_ahead_of_schedule = 0, unscanned_bytes_of_large_object = 0,
     idle_marking_delay_counter = 0, incremental_marking_finalization_rounds = 0,
     marking_bitmap = {}, external_bitmap = {},
     worklist = \<lparr>shared = [], bailout = [], capacity = None\<rparr>,
     recorded_slots = [], progress_bar = (\<lambda>c. 0),
     POINTERS_TO_HERE_ARE_INTERESTING = {}, POINTERS_FROM_HERE_ARE_INTERESTING = {},
     retained_maps = [], code_stubs = [], allocation_observers = (\<lambda>sp. {}),
     stack_guard_gc_requested = False, retain_maps_calls = 0, visited_ranges = []\<rparr>"

text \<open>
  A heap whose objects all have the map at 1000 and a size of 32 bytes, with no pointer
  fields, no roots, no pages and nothing in from-space or to-space.
\<close>

definition example_heap :: Heap where
  "example_heap = \<lparr>map_word = (\<lambda>obj. MapPointer 1000), SizeFromMap = (\<lambda>obj. 32),
     IsFiller = (\<lambda>obj. False), visitor_id = (\<lambda>m. kVisitOther), field = (\<lambda>p. Smi 0),
     body_slots = (\<lambda>obj. []), normalized_map_cache = (\<lambda>c. Smi 0),
     IsUndefined = (\<lambda>v. False), GetConstructor = (\<lambda>m. Smi 0), prototype = (\<lambda>m. Smi 0),
     chunk_of = (\<lambda>obj. obj div 1000), HAS_PROGRESS_BAR = (\<lambda>c. False),
     SWEEP_TO_ITERATE = (\<lambda>c. False), InFromSpace = (\<lambda>obj. False),
     InToSpace = (\<lambda>obj. False), one_pointer_filler_map = 2000, strong_roots = [],
     space_pages = (\<lambda>sp. []), linear_allocation_area = (\<lambda>sp. {}),
     number_of_disposed_maps = 0, ShouldReduceMemory = False,
     ShouldAbortIncrementalMarking = False, serializer_enabled = False,
     gc_state_is_NOT_IN_GC = True, always_allocate = False, sweeping_in_progress = False,
     AreSweeperTasksRunning = False, StartCompaction = False,
     OldGenerationAllocationCounter = 0, PromotedSpaceSizeOfObjects = 0,
     NumberOfCachedWrappersToTrace = 0, ShouldFinalizeIncrementalMarking = True,
     StepSizeToMakeProgress_result = 0, max_step_size = 1048576\<rparr>"

text \<open>
  The same heap with a large FixedArray of 100000 bytes at word 5000, alone on chunk 5,
  which has the progress bar. Its elements are small integers.
\<close>

definition large_array_heap :: Heap where
  "large_array_heap = example_heap\<lparr>SizeFromMap := (\<lambda>obj. if obj = 5000 then 100000 else 32),
     visitor_id := (\<lambda>m. if m = 1000 then kVisitFixedArray else kVisitOther),
     HAS_PROGRESS_BAR := (\<lambda>c. c = 5)\<rparr>"

text \<open>
  A heap for RetainMaps: the prototype of every map is the object at 500, and the first
  two slots of the retained-maps array (its first entry) belong to disposed maps.
\<close>

definition retained_maps_heap :: Heap where
  "retained_maps_heap = example_heap\<lparr>prototype := (\<lambda>m. HeapObject 500),
     number_of_disposed_maps := 2\<rparr>"

text \<open>
  A heap for the scavenge: the object at 600 is in from-space and forwarded to 650 in
  to-space, and the object at 700 is a one-pointer filler in old space.
\<close>

definition scavenge_heap :: Heap where
  "scavenge_heap = example_heap\<lparr>
     map_word := (\<lambda>obj. if obj = 600 then ForwardingAddress 650
                         else if obj = 700 then MapPointer 2000 else MapPointer 1000),
     InFromSpace := (\<lambda>obj. obj = 600), InToSpace := (\<lambda>obj. obj = 650)\<rparr>"

text \<open>
  A heap with one new-space page (1) and one old-space page (2), a RecordWrite stub in
  a given mode, and a marker in the middle of a compacting cycle: the barrier is active
  on both pages, the stub is patched, the observers are attached and a GC is requested.
\<close>

definition paged_heap :: Heap where
  "paged_heap = example_heap\<lparr>space_pages :=
     (\<lambda>sp. if sp = NEW_SPACE then [1] else if sp = OLD_SPACE then [2] else [])\<rparr>"

definition record_write_stub :: "RecordWriteStubMode \<Rightarrow> CodeStub" where
  "record_write_stub mode =
     \<lparr>IsKey = True, MajorKeyIsRecordWrite = True, IsCode = True, stub_mode = mode\<rparr>"

definition active_state :: IncrementalMarking where
  "active_state = example_state\<lparr>is_compacting := True, black_allocation := True,
     should_hurry := True, POINTERS_TO_HERE_ARE_INTERESTING := {1, 2},
     POINTERS_FROM_HERE_ARE_INTERESTING := {1, 2},
     code_stubs := [record_write_stub INCREMENTAL_COMPACTION],
     allocation_observers := (\<lambda>sp. {observer_of sp}),
     stack_guard_gc_requested := True,
     worklist := \<lparr>shared = [8, 12], bailout = [], capacity = None\<rparr>\<rparr>"

text \<open>
  A marker with the large array of \<open>large_array_heap\<close> and the object at 8 on the
  worklist, both Grey; a marker whose background tasks are 100000 bytes ahead of
  schedule, with 70000 bytes allocated since the last step and the Grey object at 8 on
  the worklist; and a stopped marker that still holds a credit of 100000 bytes.
\<close>

definition draining_state :: IncrementalMarking where
  "draining_state = example_state\<lparr>marking_bitmap := {8, 5000},
     worklist := \<lparr>shared = [5000, 8], bailout = [], capacity = None\<rparr>\<rparr>"

definition credited_state :: IncrementalMarking where
  "credited_state = example_state\<lparr>bytes_marked_ahead_of_schedule := 100000,
     bytes_allocated := 70000, marking_bitmap := {8},
     worklist := \<lparr>shared = [8], bailout = [], capacity = None\<rparr>\<rparr>"

definition stopped_state :: IncrementalMarking where
  "stopped_state = example_state\<lparr>state := STOPPED, bytes_marked_ahead_of_schedule := 100000\<rparr>"

text \<open>
  A marker with a full worklist that holds the Grey array at 20; a marker allocating
  black, with the words 10 to 15 in a black area; and a marker after a scavenge, with
  three Grey objects on the worklist.
\<close>

definition trimming_state :: IncrementalMarking where
  "trimming_state = example_state\<lparr>marking_bitmap := {8, 20},
     worklist := \<lparr>shared = [8, 20], bailout = [], capacity = Some 2\<rparr>\<rparr>"

definition black_area_state :: IncrementalMarking where
  "black_area_state = example_state\<lparr>black_allocation := True,
     marking_bitmap := {10, 11, 12, 13, 14, 15}\<rparr>"

definition scavenged_state :: IncrementalMarking where
  "scavenged_state = example_state\<lparr>marking_bitmap := {600, 700, 800},
     worklist := \<lparr>shared = [600, 700, 800], bailout = [], capacity = None\<rparr>\<rparr>"

text \<open>
  A marker before its first finalization round, with two retained maps of age 1 and one
  Grey object on the worklist.
\<close>

definition finalization_state :: IncrementalMarking where
  "finalization_state = example_state\<lparr>retained_maps := [(Some 300, 1), (Some 400, 1)],
     marking_bitmap := {8}, worklist := \<lparr>shared = [8], bailout = [], capacity = None\<rparr>\<rparr>"

text \<open>
  The heap with pages while the sweeper is still at work, and a stopped marker on it
  with the barrier at rest.
\<close>

definition sweeping_heap :: Heap where
  "sweeping_heap = paged_heap\<lparr>sweeping_in_progress := True\<rparr>"

definition idle_state :: IncrementalMarking where
  "idle_state = example_state\<lparr>state := STOPPED,
     POINTERS_TO_HERE_ARE_INTERESTING := {1}, POINTERS_FROM_HERE_ARE_INTERESTING := {2},
     code_stubs := [record_write_stub STORE_BUFFER_ONLY]\<rparr>"


text \<open>A worklist that is full: two entries and a capacity of two.\<close>

definition full_worklist :: MarkingWorklist where
  "full_worklist = \<lparr>shared = [8, 12], bailout = [], capacity = Some 2\<rparr>"

section \<open>Properties of WhiteToGreyAndPush\<close>

text \<open>
  Claim C9, amended. WhiteToGreyAndPush returns true exactly when the object was White.
  Then the object is Grey afterwards, and it has been appended to the worklist unless
  the worklist was full: on a full worklist the push is dropped and the worklist is
  unchanged. When the object is not White, it returns false and changes nothing.
\<close>

theorem WhiteToGreyAndPush_transition:
  "case WhiteToGreyAndPush s obj of
     (s', pushed) \<Rightarrow>
       pushed = IsWhite (marking_bitmap s) obj \<and>
       (pushed \<longrightarrow>
          IsGrey (marking_bitmap s') obj \<and>
          marking_bitmap s' = insert obj (marking_bitmap s) \<and>
          (\<not> IsFull (worklist s) \<longrightarrow>
             worklist s' = (worklist s)\<lparr>shared := shared (worklist s) @ [obj]\<rparr>) \<and>
          (IsFull (worklist s) \<longrightarrow> worklist s' = worklist s)) \<and>
       (\<not> pushed \<longrightarrow> s' = s)"
  by (auto simp: WhiteToGreyAndPush_def WhiteToGrey_def IsWhite_def IsGrey_def Push_def
      split: prod.splits)

text \<open>
  The theorem at a White object (pushed, Grey afterwards) and at an object that is
  already Grey (false, nothing changes).
\<close>

theorem WhiteToGreyAndPush_transition_witness:
  "snd (WhiteToGreyAndPush example_state 4) \<and>
   IsGrey (marking_bitmap (fst (WhiteToGreyAndPush example_state 4))) 4 \<and>
   shared (worklist (fst (WhiteToGreyAndPush example_state 4))) = [4] \<and>
   \<not> snd (WhiteToGreyAndPush (example_state\<lparr>marking_bitmap := {4}\<rparr>) 4) \<and>
   fst (WhiteToGreyAndPush (example_state\<lparr>marking_bitmap := {4}\<rparr>) 4) =
     example_state\<lparr>marking_bitmap := {4}\<rparr>"
  using WhiteToGreyAndPush_transition [of example_state 4]
    WhiteToGreyAndPush_transition [of "example_state\<lparr>marking_bitmap := {4}\<rparr>" 4]
  by (simp add: example_state_def IsWhite_def IsGrey_def IsFull_def split: prod.splits)

text \<open>
  Claim C9 as stated fails on a full worklist: the White object 4 makes the transition
  and the call returns true, but 4 is not on the worklist afterwards.
\<close>

theorem WhiteToGreyAndPush_full_worklist_counterexample:
  "IsWhite (marking_bitmap (example_state\<lparr>worklist := full_worklist\<rparr>)) 4 \<and>
   snd (WhiteToGreyAndPush (example_state\<lparr>worklist := full_worklist\<rparr>) 4) \<and>
   4 \<notin> set (shared (worklist (fst (WhiteToGreyAndPush
                  (example_state\<lparr>worklist := full_worklist\<rparr>) 4)))) \<and>
   worklist (fst (WhiteToGreyAndPush (example_state\<lparr>worklist := full_worklist\<rparr>) 4)) =
     full_worklist"
  by (simp add: example_state_def full_worklist_def WhiteToGreyAndPush_def WhiteToGrey_def
      IsWhite_def Push_def IsFull_def)

section \<open>Properties of the write barrier\<close>

text \<open>
  Claim C1, amended. For RecordWriteSlow(obj, slot, value), with need_recording standing
  for "concurrent marking is enabled or obj is Black": value goes from White to Grey
  exactly when need_recording holds and value was White; it is appended to the
  worklist exactly when, in addition, the worklist is not full; and the slot is handed
  to the compacting collector exactly when need_recording holds, the collector is
  compacting and the slot is not null, whatever the colour of value.
\<close>

theorem RecordWriteSlow_effect:
  "marking_bitmap (RecordWriteSlow fl s obj slot_ptr val) =
     (if (FLAG_concurrent_marking fl \<or> IsBlack (marking_bitmap s) obj) \<and>
         IsWhite (marking_bitmap s) val
      then insert val (marking_bitmap s) else marking_bitmap s) \<and>
   (IsWhite (marking_bitmap s) val \<and>
    IsGrey (marking_bitmap (RecordWriteSlow fl s obj slot_ptr val)) val) =
     ((FLAG_concurrent_marking fl \<or> IsBlack (marking_bitmap s) obj) \<and>
      IsWhite (marking_bitmap s) val) \<and>
   worklist (RecordWriteSlow fl s obj slot_ptr val) =
     (if (FLAG_concurrent_marking fl \<or> IsBlack (marking_bitmap s) obj) \<and>
         IsWhite (marking_bitmap s) val \<and> \<not> IsFull (worklist s)
      then (worklist s)\<lparr>shared := shared (worklist s) @ [val]\<rparr> else worklist s) \<and>
   recorded_slots (RecordWriteSlow fl s obj slot_ptr val) =
     (if (FLAG_concurrent_marking fl \<or> IsBlack (marking_bitmap s) obj) \<and>
         is_compacting s \<and> slot_ptr \<noteq> None
      then recorded_slots s @ [(obj, the slot_ptr, val)] else recorded_slots s)"
  by (auto simp: RecordWriteSlow_def BaseRecordWrite_def WhiteToGreyAndPush_def
      WhiteToGrey_def RestartIfNotMarking_def RecordSlot_def Push_def IsWhite_def
      IsGrey_def IsBlack_def Let_def split: prod.splits option.splits bool.splits)

text \<open>
  The theorem at a store of the White object 40 into a field of the Black object 16
  while compacting: 40 turns Grey, is pushed, and the slot is recorded.
\<close>

theorem RecordWriteSlow_effect_witness:
  "marking_bitmap (RecordWriteSlow example_flags
       (example_state\<lparr>marking_bitmap := {16, 17}, is_compacting := True\<rparr>)
       16 (Some (RawField 16 24)) 40) = {40, 16, 17} \<and>
   shared (worklist (RecordWriteSlow example_flags
       (example_state\<lparr>marking_bitmap := {16, 17}, is_compacting := True\<rparr>)
       16 (Some (RawField 16 24)) 40)) = [40] \<and>
   recorded_slots (RecordWriteSlow example_flags
       (example_state\<lparr>marking_bitmap := {16, 17}, is_compacting := True\<rparr>)
       16 (Some (RawField 16 24)) 40) = [(16, RawField 16 24, 40)]"
  using RecordWriteSlow_effect [of example_flags
      "example_state\<lparr>marking_bitmap := {16, 17}, is_compacting := True\<rparr>"
      16 "Some (RawField 16 24)" 40]
  by (simp add: example_flags_def example_state_def IsWhite_def IsBlack_def IsFull_def)

text \<open>
  Claim C1 as stated fails on a full worklist: obj (16) is Black and value (40) is White,
  so value turns Grey, but it is on neither queue of the worklist afterwards.
\<close>

theorem RecordWriteSlow_full_worklist_counterexample:
  "IsBlack (marking_bitmap
      (example_state\<lparr>marking_bitmap := {16, 17}, worklist := full_worklist\<rparr>)) 16 \<and>
   IsWhite (marking_bitmap
      (example_state\<lparr>marking_bitmap := {16, 17}, worklist := full_worklist\<rparr>)) 40 \<and>
   IsGrey (marking_bitmap (RecordWriteSlow example_flags
      (example_state\<lparr>marking_bitmap := {16, 17}, worklist := full_worklist\<rparr>) 16 None 40)) 40 \<and>
   40 \<notin> set (shared (worklist (RecordWriteSlow example_flags
      (example_state\<lparr>marking_bitmap := {16, 17}, worklist := full_worklist\<rparr>) 16 None 40))) \<and>
   40 \<notin> set (bailout (worklist (RecordWriteSlow example_flags
      (example_state\<lparr>marking_bitmap := {16, 17}, worklist := full_worklist\<rparr>) 16 None 40)))"
  by (simp add: example_flags_def example_state_def full_worklist_def RecordWriteSlow_def
      BaseRecordWrite_def WhiteToGreyAndPush_def WhiteToGrey_def RestartIfNotMarking_def
      Push_def IsFull_def IsWhite_def IsGrey_def IsBlack_def Let_def)

section \<open>Properties of NotifyLeftTrimming\<close>

text \<open>
  Claim C2, amended. When black allocation is on and \<open>to\<close> is already Black, the call
  returns at once and changes nothing (lines 146 to 149: the object is in a black area).
  If \<open>from\<close> was Black, \<open>to\<close> is Black afterwards, given the assertion of the branch
  taken: without overlap and outside a black area, \<open>to\<close> is White before the call.
  If \<open>from\<close> was Grey and \<open>to\<close> is not in a black area, \<open>to\<close> is Grey afterwards and
  Push(to) has been applied to the worklist, given the assertions of that branch: with
  overlap the second bit of \<open>to\<close> is clear, without overlap \<open>to\<close> is White. Push
  appends \<open>to\<close> unless the worklist is full; then the worklist is as it was. All of
  this holds with and without concurrent marking.
\<close>

theorem NotifyLeftTrimming_color_transfer:
  "(black_allocation s \<and> IsBlack (marking_bitmap s) to_obj \<longrightarrow>
      NotifyLeftTrimming fl s from_obj to_obj = s) \<and>
   ((Suc from_obj \<noteq> to_obj \<and> \<not> (black_allocation s \<and> IsBlack (marking_bitmap s) to_obj) \<longrightarrow>
       IsWhite (marking_bitmap s) to_obj) \<and>
    IsBlack (marking_bitmap s) from_obj \<longrightarrow>
      IsBlack (marking_bitmap (NotifyLeftTrimming fl s from_obj to_obj)) to_obj) \<and>
   (\<not> (black_allocation s \<and> IsBlack (marking_bitmap s) to_obj) \<and>
    (if Suc from_obj = to_obj then Suc to_obj \<notin> marking_bitmap s
     else IsWhite (marking_bitmap s) to_obj) \<and>
    IsGrey (marking_bitmap s) from_obj \<longrightarrow>
      IsGrey (marking_bitmap (NotifyLeftTrimming fl s from_obj to_obj)) to_obj \<and>
      worklist (NotifyLeftTrimming fl s from_obj to_obj) = fst (Push (worklist s) to_obj) \<and>
      (\<not> IsFull (worklist s) \<longrightarrow>
         shared (worklist (NotifyLeftTrimming fl s from_obj to_obj)) =
           shared (worklist s) @ [to_obj]) \<and>
      (IsFull (worklist s) \<longrightarrow>
         worklist (NotifyLeftTrimming fl s from_obj to_obj) = worklist s))"
proof -
  have 1: "black_allocation s \<and> IsBlack (marking_bitmap s) to_obj \<longrightarrow>
      NotifyLeftTrimming fl s from_obj to_obj = s"
    by (simp add: NotifyLeftTrimming_def Let_def)
  have 2: "(Suc from_obj \<noteq> to_obj \<and> \<not> (black_allocation s \<and> IsBlack (marking_bitmap s) to_obj) \<longrightarrow>
       IsWhite (marking_bitmap s) to_obj) \<and>
    IsBlack (marking_bitmap s) from_obj \<longrightarrow>
      IsBlack (marking_bitmap (NotifyLeftTrimming fl s from_obj to_obj)) to_obj"
    by (auto simp: NotifyLeftTrimming_def Let_def WhiteToGrey_def GreyToBlack_def
      WhiteToBlack_def IsWhite_def IsGrey_def IsBlack_def RestartIfNotMarking_def
      split: prod.splits if_splits)
  have 3: "(if Suc from_obj = to_obj then Suc to_obj \<notin> marking_bitmap s
     else IsWhite (marking_bitmap s) to_obj) \<and>
    IsGrey (marking_bitmap s) from_obj \<longrightarrow>
      IsGrey (marking_bitmap (NotifyLeftTrimming fl s from_obj to_obj)) to_obj \<and>
      worklist (NotifyLeftTrimming fl s from_obj to_obj) = fst (Push (worklist s) to_obj)"
    by (auto simp: NotifyLeftTrimming_def Let_def WhiteToGrey_def GreyToBlack_def
      WhiteToBlack_def IsWhite_def IsGrey_def IsBlack_def RestartIfNotMarking_def
      split: prod.splits if_splits)
  have 4: "\<not> IsFull (worklist s) \<longrightarrow>
      shared (fst (Push (worklist s) to_obj)) = shared (worklist s) @ [to_obj]"
    by (simp add: Push_def)
  have 5: "IsFull (worklist s) \<longrightarrow> fst (Push (worklist s) to_obj) = worklist s"
    by (simp add: Push_def)
  show ?thesis using 1 2 3 4 5 by simp
qed

text \<open>
  The theorem at a Grey array whose start moves one word forward (overlapping bits, as
  in scenario S4 of the spec), at a Black array trimmed by four words, and at an array
  in a black area.
\<close>

theorem NotifyLeftTrimming_color_transfer_witness:
  "IsGrey (marking_bitmap (example_state\<lparr>marking_bitmap := {10}\<rparr>)) 10 \<and>
   IsGrey (marking_bitmap (NotifyLeftTrimming example_flags
             (example_state\<lparr>marking_bitmap := {10}\<rparr>) 10 11)) 11 \<and>
   shared (worklist (NotifyLeftTrimming example_flags
             (example_state\<lparr>marking_bitmap := {10}\<rparr>) 10 11)) = [11] \<and>
   IsBlack (marking_bitmap (example_state\<lparr>marking_bitmap := {10, 11}\<rparr>)) 10 \<and>
   IsWhite (marking_bitmap (example_state\<lparr>marking_bitmap := {10, 11}\<rparr>)) 14 \<and>
   IsBlack (marking_bitmap (NotifyLeftTrimming example_flags
             (example_state\<lparr>marking_bitmap := {10, 11}\<rparr>) 10 14)) 14 \<and>
   black_allocation black_area_state \<and>
   IsBlack (marking_bitmap black_area_state) 10 \<and>
   IsBlack (marking_bitmap black_area_state) 12 \<and>
   NotifyLeftTrimming example_flags black_area_state 10 12 = black_area_state"
  using NotifyLeftTrimming_color_transfer [of "example_state\<lparr>marking_bitmap := {10}\<rparr>" 11
      example_flags 10]
    NotifyLeftTrimming_color_transfer [of "example_state\<lparr>marking_bitmap := {10, 11}\<rparr>" 14
      example_flags 10]
    NotifyLeftTrimming_color_transfer [of black_area_state 12 example_flags 10]
  by (simp add: example_state_def black_area_state_def IsWhite_def IsGrey_def IsBlack_def
      Push_def IsFull_def)

text \<open>
  Claim C2 as stated fails on a full worklist: the Grey array at 20 is trimmed to 24,
  which becomes Grey, but Push fails and line 192 does not look at its result: 24 is
  not on the worklist.
\<close>

theorem NotifyLeftTrimming_full_worklist_counterexample:
  "IsGrey (marking_bitmap trimming_state) 20 \<and>
   IsWhite (marking_bitmap trimming_state) 24 \<and>
   IsGrey (marking_bitmap (NotifyLeftTrimming example_flags trimming_state 20 24)) 24 \<and>
   worklist (NotifyLeftTrimming example_flags trimming_state 20 24) = worklist trimming_state \<and>
   24 \<notin> set (entries (worklist (NotifyLeftTrimming example_flags trimming_state 20 24)))"
  by (simp add: trimming_state_def example_state_def example_flags_def NotifyLeftTrimming_def
      IsGrey_def IsBlack_def IsWhite_def WhiteToGrey_def Push_def IsFull_def entries_def
      RestartIfNotMarking_def Let_def)

section \<open>Properties of VisitFixedArray\<close>

text \<open>What VisitPointers preserves follows from what VisitPointer preserves.\<close>

lemma VisitPointers_preserves:
  "(\<And>s p. P s \<Longrightarrow> P (VisitPointer h s host p)) \<Longrightarrow> P s \<Longrightarrow>
   P (VisitPointers h s host p e)"
proof (induction h s host p e rule: VisitPointers.induct)
  case (1 h s host p e)
  show ?case
  proof (cases "p < e")
    case True
    have "P (VisitPointer h s host (RawField host p))"
      using "1.prems" by blast
    then have "P (VisitPointers h (VisitPointer h s host (RawField host p)) host (p + kPointerSize) e)"
      using "1.IH" [OF True] "1.prems"(1) by blast
    then show ?thesis
      using True by (subst VisitPointers.simps) simp
  next
    case False
    then show ?thesis using "1.prems" by (subst VisitPointers.simps) simp
  qed
qed

lemma WhiteToGreyAndPush_frame:
  "progress_bar (fst (WhiteToGreyAndPush s obj)) = progress_bar s"
  "visited_ranges (fst (WhiteToGreyAndPush s obj)) = visited_ranges s"
  "unscanned_bytes_of_large_object (fst (WhiteToGreyAndPush s obj)) = unscanned_bytes_of_large_object s"
  "capacity (worklist (fst (WhiteToGreyAndPush s obj))) = capacity (worklist s)"
  "bailout (worklist (fst (WhiteToGreyAndPush s obj))) = bailout (worklist s)"
  "IsFull (worklist s) \<Longrightarrow> worklist (fst (WhiteToGreyAndPush s obj)) = worklist s"
  by (auto simp: WhiteToGreyAndPush_def WhiteToGrey_def Push_def split: prod.splits)

lemma IsFull_WhiteToGreyAndPush:
  "IsFull (worklist s) \<Longrightarrow> IsFull (worklist (fst (WhiteToGreyAndPush s obj)))"
  by (simp add: WhiteToGreyAndPush_frame)

lemma VisitPointer_frame:
  "progress_bar (VisitPointer h s host p) = progress_bar s"
  "visited_ranges (VisitPointer h s host p) = visited_ranges s"
  "unscanned_bytes_of_large_object (VisitPointer h s host p) = unscanned_bytes_of_large_object s"
  "IsFull (worklist s) \<Longrightarrow> IsFull (worklist (VisitPointer h s host p))"
  by (auto simp: VisitPointer_def WhiteToGreyAndPush_frame RecordSlot_def split: object.splits)

lemma VisitPointers_frame:
  "progress_bar (VisitPointers h s host p e) = progress_bar s"
  "visited_ranges (VisitPointers h s host p e) = visited_ranges s"
  "unscanned_bytes_of_large_object (VisitPointers h s host p e) = unscanned_bytes_of_large_object s"
  "IsFull (worklist s) \<Longrightarrow> IsFull (worklist (VisitPointers h s host p e))"
proof -
  show "progress_bar (VisitPointers h s host p e) = progress_bar s"
    by (rule VisitPointers_preserves [where P = "\<lambda>t. progress_bar t = progress_bar s"])
       (simp_all add: VisitPointer_frame)
  show "visited_ranges (VisitPointers h s host p e) = visited_ranges s"
    by (rule VisitPointers_preserves [where P = "\<lambda>t. visited_ranges t = visited_ranges s"])
       (simp_all add: VisitPointer_frame)
  show "unscanned_bytes_of_large_object (VisitPointers h s host p e) = unscanned_bytes_of_large_object s"
    by (rule VisitPointers_preserves [where P = "\<lambda>t. unscanned_bytes_of_large_object t = unscanned_bytes_of_large_object s"])
       (simp_all add: VisitPointer_frame)
  show "IsFull (worklist s) \<Longrightarrow> IsFull (worklist (VisitPointers h s host p e))"
    by (rule VisitPointers_preserves [where P = "\<lambda>t. IsFull (worklist t)"])
       (simp_all add: VisitPointer_frame)
qed

text \<open>
  The loop of VisitFixedArray, started with \<open>end_offset\<close> within the object: it returns
  the object size when the worklist is full at the end and \<open>end_offset\<close> otherwise, it
  logs the first range and then only further ranges while the worklist is full, and the
  worklist is full at the end exactly when it was full after the first range.
\<close>

lemma VisitFixedArray_loop_result:
  assumes "e \<le> sz"
  shows "case VisitFixedArray_loop h s obj sz start e of
     (s', start') \<Rightarrow>
        start' = (if IsFull (worklist s') then sz else e) \<and>
        progress_bar s' = progress_bar s \<and>
        unscanned_bytes_of_large_object s' = unscanned_bytes_of_large_object s \<and>
        (\<exists>rs. visited_ranges s' = visited_ranges s @ (obj, start, e) # rs \<and>
              snd (snd (last ((obj, start, e) # rs))) = start' \<and>
              (rs \<noteq> [] \<longrightarrow> IsFull (worklist s'))) \<and>
        (IsFull (worklist (VisitPointers h s obj start e)) = IsFull (worklist s'))"
  using assms
proof (induction h s obj sz start e rule: VisitFixedArray_loop.induct)
  case (1 h s object object_size start_offset end_offset)
  define s1 where "s1 = (VisitPointers h s object start_offset end_offset)
                \<lparr>visited_ranges := visited_ranges s @ [(object, start_offset, end_offset)]\<rparr>"
  define e' where "e' = min object_size (end_offset + kProgressBarScanningChunk)"
  show ?case
  proof (cases "IsFull (worklist s1) \<and> end_offset < object_size")
    case True
    have le: "e' \<le> object_size" by (simp add: e'_def)
    have IH: "case VisitFixedArray_loop h s1 object object_size end_offset e' of
     (s', start') \<Rightarrow>
        start' = (if IsFull (worklist s') then object_size else e') \<and>
        progress_bar s' = progress_bar s1 \<and>
        unscanned_bytes_of_large_object s' = unscanned_bytes_of_large_object s1 \<and>
        (\<exists>rs. visited_ranges s' = visited_ranges s1 @ (object, end_offset, e') # rs \<and>
              snd (snd (last ((object, end_offset, e') # rs))) = start' \<and>
              (rs \<noteq> [] \<longrightarrow> IsFull (worklist s'))) \<and>
        (IsFull (worklist (VisitPointers h s1 object end_offset e')) = IsFull (worklist s'))"
      using "1.IH" [OF s1_def refl e'_def refl _ le] True by simp
    have full1: "IsFull (worklist (VisitPointers h s1 object end_offset e'))"
      using True by (simp add: VisitPointers_frame)
    have unf: "VisitFixedArray_loop h s object object_size start_offset end_offset =
               VisitFixedArray_loop h s1 object object_size end_offset e'"
      using True by (subst VisitFixedArray_loop.simps) (simp add: s1_def e'_def Let_def)
    obtain s' start' where res: "VisitFixedArray_loop h s1 object object_size end_offset e' = (s', start')"
      by (cases "VisitFixedArray_loop h s1 object object_size end_offset e'")
    from IH res full1 obtain rs where
      f1: "start' = (if IsFull (worklist s') then object_size else e')" and
      f2: "progress_bar s' = progress_bar s1" and
      f3: "unscanned_bytes_of_large_object s' = unscanned_bytes_of_large_object s1" and
      f4: "visited_ranges s' = visited_ranges s1 @ (object, end_offset, e') # rs" and
      f5: "snd (snd (last ((object, end_offset, e') # rs))) = start'" and
      f6: "IsFull (worklist s')"
      by auto
    have g1: "progress_bar s1 = progress_bar s" "unscanned_bytes_of_large_object s1 = unscanned_bytes_of_large_object s"
      "visited_ranges s1 = visited_ranges s @ [(object, start_offset, end_offset)]"
      "worklist s1 = worklist (VisitPointers h s object start_offset end_offset)"
      by (simp_all add: s1_def VisitPointers_frame)
    have g2: "visited_ranges s' = visited_ranges s @ (object, start_offset, end_offset) # ((object, end_offset, e') # rs)"
      using f4 g1 by simp
    have g3: "snd (snd (last ((object, start_offset, end_offset) # ((object, end_offset, e') # rs)))) = start'"
      using f5 by simp
    have g4: "IsFull (worklist (VisitPointers h s object start_offset end_offset))"
      using True g1 by simp
    show ?thesis
      unfolding unf res
      using f1 f2 f3 f6 g1 g2 g3 g4 by (simp del: last.simps)
  next
    case False
    have unf: "VisitFixedArray_loop h s object object_size start_offset end_offset = (s1, end_offset)"
      using False by (subst VisitFixedArray_loop.simps) (auto simp add: s1_def e'_def Let_def)
    have g1: "progress_bar s1 = progress_bar s" "unscanned_bytes_of_large_object s1 = unscanned_bytes_of_large_object s"
      "visited_ranges s1 = visited_ranges s @ [(object, start_offset, end_offset)]"
      "worklist s1 = worklist (VisitPointers h s object start_offset end_offset)"
      by (simp_all add: s1_def VisitPointers_frame)
    have "end_offset = (if IsFull (worklist s1) then object_size else end_offset)"
      using False "1.prems" by auto
    then show ?thesis
      unfolding unf using g1 by simp
  qed
qed










lemma WhiteToGreyAndPush_marks:
  "\<not> IsWhite (marking_bitmap (fst (WhiteToGreyAndPush s obj))) obj"
  by (auto simp: WhiteToGreyAndPush_def WhiteToGrey_def IsWhite_def)



















section \<open>Properties of finalization\<close>

text \<open>What WhiteToGreyAndPush, MarkRoots and the loop of RetainMaps leave alone.\<close>

lemma foldl_preserves:
  "(\<And>s x. P s \<Longrightarrow> P (f s x)) \<Longrightarrow> P s \<Longrightarrow> P (foldl f s xs)"
  by (induction xs arbitrary: s) auto

lemma only_marking_changed_refl: "only_marking_changed s s"
  unfolding only_marking_changed_def
  by (rule exI [of _ "marking_bitmap s"], rule exI [of _ "worklist s"]) simp

lemma only_marking_changed_trans:
  "only_marking_changed s t \<Longrightarrow> only_marking_changed t u \<Longrightarrow> only_marking_changed s u"
  unfolding only_marking_changed_def by force

lemma only_marking_changed_fields:
  assumes "only_marking_changed s s'"
  shows "incremental_marking_finalization_rounds s' = incremental_marking_finalization_rounds s"
    "finalize_marking_completed s' = finalize_marking_completed s"
    "retain_maps_calls s' = retain_maps_calls s"
    "retained_maps s' = retained_maps s"
    "black_allocation s' = black_allocation s"
    "bytes_marked_ahead_of_schedule s' = bytes_marked_ahead_of_schedule s"
    "marking_bitmap s \<subseteq> marking_bitmap s'"
    "state s' = state s"
  using assms unfolding only_marking_changed_def by auto

lemma WhiteToGreyAndPush_only_marking: "only_marking_changed s (fst (WhiteToGreyAndPush s obj))"
proof (cases "IsWhite (marking_bitmap s) obj")
  case True
  then have "fst (WhiteToGreyAndPush s obj) =
      s\<lparr>marking_bitmap := insert obj (marking_bitmap s), worklist := fst (Push (worklist s) obj)\<rparr>"
    by (simp add: WhiteToGreyAndPush_def WhiteToGrey_def)
  then show ?thesis unfolding only_marking_changed_def by blast
next
  case False
  then have "fst (WhiteToGreyAndPush s obj) = s"
    by (simp add: WhiteToGreyAndPush_def WhiteToGrey_def)
  then show ?thesis by (simp add: only_marking_changed_refl)
qed

lemma MarkRoots_only_marking: "only_marking_changed s (MarkRoots h s)"
  unfolding MarkRoots_def
  by (rule foldl_preserves [where P = "only_marking_changed s"])
     (auto simp: MarkObjectByPointer_def only_marking_changed_refl split: object.splits
           intro: only_marking_changed_trans WhiteToGreyAndPush_only_marking)

lemma RetainMaps_entry_only_marking:
  "only_marking_changed s (fst (RetainMaps_entry fl h d i entry s))"
  by (auto simp: RetainMaps_entry_def Let_def only_marking_changed_refl WhiteToGreyAndPush_only_marking
      split: prod.splits option.splits object.splits)

lemma RetainMaps_loop_only_marking:
  "only_marking_changed s (fst (RetainMaps_loop fl h d i ms s))"
proof (induction ms arbitrary: s i)
  case Nil
  show ?case by (simp add: only_marking_changed_refl)
next
  case (Cons entry rest)
  obtain s1 new_age where e: "RetainMaps_entry fl h d i entry s = (s1, new_age)"
    by (cases "RetainMaps_entry fl h d i entry s")
  have 1: "only_marking_changed s s1"
    using RetainMaps_entry_only_marking [of s fl h d i entry] e by simp
  have 2: "only_marking_changed s1 (fst (RetainMaps_loop fl h d (i + 2) rest s1))"
    by (rule Cons.IH)
  show ?case
    using only_marking_changed_trans [OF 1 2] e by (auto split: prod.splits)
qed

lemma RetainMaps_fields:
  "incremental_marking_finalization_rounds (RetainMaps fl h s) = incremental_marking_finalization_rounds s"
  "finalize_marking_completed (RetainMaps fl h s) = finalize_marking_completed s"
  "retain_maps_calls (RetainMaps fl h s) = Suc (retain_maps_calls s)"
  "black_allocation (RetainMaps fl h s) = black_allocation s"
  "bytes_marked_ahead_of_schedule (RetainMaps fl h s) = bytes_marked_ahead_of_schedule s"
  using only_marking_changed_fields [OF RetainMaps_loop_only_marking
      [of s fl h "ShouldReduceMemory h \<or> ShouldAbortIncrementalMarking h \<or> FLAG_retain_maps_for_n_gc fl = 0" 0 "retained_maps s"]]
  by (auto simp: RetainMaps_def Let_def split: prod.splits)



text \<open>
  A value in the range of an \<open>int\<close> is stored as it is, and a wrapper count below
  \<open>2^31\<close> is cast as it is.
\<close>

lemma stored_in_int_id: "- 2147483648 \<le> x \<Longrightarrow> x < 2147483648 \<Longrightarrow> stored_in_int x = x"
  unfolding stored_in_int_def
  by (simp add: int_word_sint)

lemma static_cast_int_id:
  assumes "uint w < 2147483648"
  shows "static_cast_int w = uint w"
proof -
  have "0 \<le> uint w" by simp
  then have lb: "- 2147483648 \<le> uint w" by linarith
  have "sint (word_of_int (uint w) :: 32 word) = uint w"
    using stored_in_int_id [OF lb assms] by (simp only: stored_in_int_def)
  then show ?thesis by (simp only: static_cast_int_def ucast_eq)
qed

text \<open>
  Claim C5. Every call to FinalizeIncrementally increments the round counter. RetainMaps
  is called exactly when the counter was zero at entry: then the retained maps and the
  worklist on return are those that RetainMaps leaves after MarkRoots, and otherwise
  the retained maps are untouched and the worklist is that of MarkRoots. On return
  \<open>finalize_marking_completed\<close> is true exactly when it was true at entry, or the
  incremented counter has reached the maximum number of rounds, or the marking progress
  is below the minimum progress; a call that respects the assertion of line 705 finds it
  false at entry. The marking progress is the \<open>int\<close> of lines 724 to 727, which is the
  size of the worklist plus the cached wrapper count whenever that sum is below \<open>2^31\<close>.
\<close>

theorem FinalizeIncrementally_rounds:
  "incremental_marking_finalization_rounds (FinalizeIncrementally fl h s) =
     incremental_marking_finalization_rounds s + 1 \<and>
   retain_maps_calls (FinalizeIncrementally fl h s) =
     retain_maps_calls s + (if incremental_marking_finalization_rounds s = 0 then 1 else 0) \<and>
   (incremental_marking_finalization_rounds s = 0 \<longrightarrow>
      retained_maps (FinalizeIncrementally fl h s) =
        retained_maps (RetainMaps fl h (MarkRoots h s)) \<and>
      worklist (FinalizeIncrementally fl h s) = worklist (RetainMaps fl h (MarkRoots h s)) \<and>
      marking_bitmap (RetainMaps fl h (MarkRoots h s)) \<subseteq>
        marking_bitmap (FinalizeIncrementally fl h s)) \<and>
   (incremental_marking_finalization_rounds s \<noteq> 0 \<longrightarrow>
      retained_maps (FinalizeIncrementally fl h s) = retained_maps s \<and>
      worklist (FinalizeIncrementally fl h s) = worklist (MarkRoots h s) \<and>
      marking_bitmap (MarkRoots h s) \<subseteq> marking_bitmap (FinalizeIncrementally fl h s)) \<and>
   finalize_marking_completed (FinalizeIncrementally fl h s) =
     (finalize_marking_completed s \<or>
      incremental_marking_finalization_rounds s + 1 \<ge>
        FLAG_max_incremental_marking_finalization_rounds fl \<or>
      stored_in_int (Size (worklist (FinalizeIncrementally fl h s)) +
                     static_cast_int (NumberOfCachedWrappersToTrace h)) <
        FLAG_min_progress_during_incremental_marking_finalization fl) \<and>
   (\<not> finalize_marking_completed s \<longrightarrow>
      finalize_marking_completed (FinalizeIncrementally fl h s) =
        (incremental_marking_finalization_rounds s + 1 \<ge>
           FLAG_max_incremental_marking_finalization_rounds fl \<or>
         stored_in_int (Size (worklist (FinalizeIncrementally fl h s)) +
                        static_cast_int (NumberOfCachedWrappersToTrace h)) <
           FLAG_min_progress_during_incremental_marking_finalization fl)) \<and>
   (Size (worklist (FinalizeIncrementally fl h s)) +
      uint (NumberOfCachedWrappersToTrace h) < 2147483648 \<longrightarrow>
      stored_in_int (Size (worklist (FinalizeIncrementally fl h s)) +
                     static_cast_int (NumberOfCachedWrappersToTrace h)) =
        Size (worklist (FinalizeIncrementally fl h s)) +
          uint (NumberOfCachedWrappersToTrace h))"
proof -
  let ?F = "FinalizeIncrementally fl h s"
  let ?X = "if incremental_marking_finalization_rounds s = 0
            then RetainMaps fl h (MarkRoots h s) else MarkRoots h s"
  note mr = only_marking_changed_fields [OF MarkRoots_only_marking [of s h]]
  have rm: "retained_maps (MarkRoots h s) = retained_maps s" by (rule mr(4))
  have w: "worklist ?F = worklist ?X"
    by (simp add: FinalizeIncrementally_def Let_def mr StartBlackAllocation_def)
  have r: "retained_maps ?F = retained_maps ?X"
    by (simp add: FinalizeIncrementally_def Let_def mr StartBlackAllocation_def)
  have b: "marking_bitmap ?X \<subseteq> marking_bitmap ?F"
    by (auto simp: FinalizeIncrementally_def Let_def mr StartBlackAllocation_def)
  have c: "incremental_marking_finalization_rounds ?F =
             incremental_marking_finalization_rounds s + 1"
    "retain_maps_calls ?F =
       retain_maps_calls s + (if incremental_marking_finalization_rounds s = 0 then 1 else 0)"
    by (simp_all add: FinalizeIncrementally_def Let_def mr RetainMaps_fields
        StartBlackAllocation_def)
  have d: "finalize_marking_completed ?F =
     (finalize_marking_completed s \<or>
      incremental_marking_finalization_rounds s + 1 \<ge>
        FLAG_max_incremental_marking_finalization_rounds fl \<or>
      stored_in_int (Size (worklist ?X) + static_cast_int (NumberOfCachedWrappersToTrace h)) <
        FLAG_min_progress_during_incremental_marking_finalization fl)"
    by (auto simp: FinalizeIncrementally_def Let_def mr RetainMaps_fields StartBlackAllocation_def)
  have e: "Size (worklist ?F) + uint (NumberOfCachedWrappersToTrace h) < 2147483648 \<longrightarrow>
      stored_in_int (Size (worklist ?F) + static_cast_int (NumberOfCachedWrappersToTrace h)) =
        Size (worklist ?F) + uint (NumberOfCachedWrappersToTrace h)"
  proof
    assume a: "Size (worklist ?F) + uint (NumberOfCachedWrappersToTrace h) < 2147483648"
    have s0: "0 \<le> Size (worklist ?F)" by (simp add: Size_def)
    then have u: "uint (NumberOfCachedWrappersToTrace h) < 2147483648" using a by linarith
    have u0: "0 \<le> uint (NumberOfCachedWrappersToTrace h)" by simp
    have "static_cast_int (NumberOfCachedWrappersToTrace h) =
          uint (NumberOfCachedWrappersToTrace h)"
      by (rule static_cast_int_id [OF u])
    then show "stored_in_int (Size (worklist ?F) + static_cast_int (NumberOfCachedWrappersToTrace h)) =
        Size (worklist ?F) + uint (NumberOfCachedWrappersToTrace h)"
    proof -
      have lb: "- 2147483648 \<le> Size (worklist ?F) + uint (NumberOfCachedWrappersToTrace h)"
        using s0 u0 by linarith
      show ?thesis
        using stored_in_int_id [OF lb a]
          \<open>static_cast_int (NumberOfCachedWrappersToTrace h) =
           uint (NumberOfCachedWrappersToTrace h)\<close>
        by simp
    qed
  qed
  show ?thesis using c d e w r b rm
    by (cases "incremental_marking_finalization_rounds s = 0") simp_all
qed

text \<open>
  The theorem at the first round, where RetainMaps resets one age and decrements the
  other and the progress of 1 is below 32, and at a second round, where the ages stay.
\<close>

theorem FinalizeIncrementally_rounds_witness:
  "incremental_marking_finalization_rounds finalization_state = 0 \<and>
   \<not> finalize_marking_completed finalization_state \<and>
   incremental_marking_finalization_rounds
     (FinalizeIncrementally example_flags retained_maps_heap finalization_state) = 1 \<and>
   retain_maps_calls
     (FinalizeIncrementally example_flags retained_maps_heap finalization_state) = 1 \<and>
   retained_maps (FinalizeIncrementally example_flags retained_maps_heap finalization_state) =
     [(Some 300, 2), (Some 400, 0)] \<and>
   finalize_marking_completed
     (FinalizeIncrementally example_flags retained_maps_heap finalization_state) \<and>
   retained_maps (FinalizeIncrementally example_flags retained_maps_heap
     (finalization_state\<lparr>incremental_marking_finalization_rounds := 1\<rparr>)) =
     [(Some 300, 1), (Some 400, 1)] \<and>
   retain_maps_calls (FinalizeIncrementally example_flags retained_maps_heap
     (finalization_state\<lparr>incremental_marking_finalization_rounds := 1\<rparr>)) = 0"
proof -
  have mr: "\<And>s. MarkRoots retained_maps_heap s = s"
    by (simp add: MarkRoots_def retained_maps_heap_def example_heap_def)
  have rm: "retained_maps (RetainMaps example_flags retained_maps_heap finalization_state) =
            [(Some 300, 2), (Some 400, 0)]"
    by (simp add: RetainMaps_def RetainMaps_entry_def ShouldRetainMap_def retained_maps_heap_def
        example_heap_def example_state_def example_flags_def finalization_state_def IsWhite_def
        Let_def)
  have wl: "worklist (RetainMaps example_flags retained_maps_heap finalization_state) =
            \<lparr>shared = [8], bailout = [], capacity = None\<rparr>"
    by (simp add: RetainMaps_def RetainMaps_entry_def ShouldRetainMap_def retained_maps_heap_def
        example_heap_def example_state_def example_flags_def finalization_state_def IsWhite_def
        Let_def)
  have f: "incremental_marking_finalization_rounds finalization_state = 0"
    "\<not> finalize_marking_completed finalization_state"
    "retain_maps_calls finalization_state = 0"
    "retained_maps finalization_state = [(Some 300, 1), (Some 400, 1)]"
    by (simp_all add: finalization_state_def example_state_def)
  have c: "NumberOfCachedWrappersToTrace retained_maps_heap = 0"
    "FLAG_min_progress_during_incremental_marking_finalization example_flags = 32"
    by (simp_all add: retained_maps_heap_def example_heap_def example_flags_def)
  note T1 = FinalizeIncrementally_rounds [of example_flags retained_maps_heap finalization_state]
  note T2 = FinalizeIncrementally_rounds [of example_flags retained_maps_heap
        "finalization_state\<lparr>incremental_marking_finalization_rounds := 1\<rparr>"]
  have a1: "incremental_marking_finalization_rounds
     (FinalizeIncrementally example_flags retained_maps_heap finalization_state) = 1"
    and a2: "retain_maps_calls
     (FinalizeIncrementally example_flags retained_maps_heap finalization_state) = 1"
    and a3: "retained_maps
     (FinalizeIncrementally example_flags retained_maps_heap finalization_state) =
     [(Some 300, 2), (Some 400, 0)]"
    and a4: "worklist (FinalizeIncrementally example_flags retained_maps_heap finalization_state) =
     \<lparr>shared = [8], bailout = [], capacity = None\<rparr>"
    using T1 by (simp_all add: mr rm wl f)
  have a5: "finalize_marking_completed
     (FinalizeIncrementally example_flags retained_maps_heap finalization_state)"
    using T1 by (simp add: a4 f c Size_def static_cast_int_def stored_in_int_def)
  have b1: "retained_maps (FinalizeIncrementally example_flags retained_maps_heap
     (finalization_state\<lparr>incremental_marking_finalization_rounds := 1\<rparr>)) =
     [(Some 300, 1), (Some 400, 1)]"
    and b2: "retain_maps_calls (FinalizeIncrementally example_flags retained_maps_heap
     (finalization_state\<lparr>incremental_marking_finalization_rounds := 1\<rparr>)) = 0"
    using T2 by (simp_all add: f)
  show ?thesis using a1 a2 a3 a5 b1 b2 f by simp
qed

section \<open>Properties of RetainMaps\<close>

text \<open>
  The age that one round of the loop stores: in the prefix of disposed maps it is the
  flag's value; otherwise it is the flag's value, or the map was White, retaining is
  enabled and the age is kept or, for a positive age and a White prototype, decremented.
  The colours are those before the round, and so those before the loop.
\<close>

lemma IsWhite_antimono: "bm \<subseteq> bm' \<Longrightarrow> IsWhite bm' obj \<Longrightarrow> IsWhite bm obj"
  by (auto simp: IsWhite_def)

lemma RetainMaps_entry_age:
  assumes "RetainMaps_entry fl h d i (Some m, age) s = (s1, new_age)"
  shows "(i < number_of_disposed_maps h \<longrightarrow> new_age = FLAG_retain_maps_for_n_gc fl) \<and>
         (new_age = FLAG_retain_maps_for_n_gc fl \<or>
          (i \<ge> number_of_disposed_maps h \<and> \<not> d \<and> IsWhite (marking_bitmap s) m \<and>
           (new_age = age \<or>
            (new_age = age - 1 \<and> age > 0 \<and>
             (\<exists>p. prototype h m = HeapObject p \<and> IsWhite (marking_bitmap s) p)))))"
proof (cases "i \<ge> number_of_disposed_maps h \<and> \<not> d \<and> IsWhite (marking_bitmap s) m")
  case False
  then show ?thesis using assms by (auto simp: RetainMaps_entry_def)
next
  case True
  define s0 where "s0 = (if ShouldRetainMap h s m age then fst (WhiteToGreyAndPush s m) else s)"
  have sub: "marking_bitmap s \<subseteq> marking_bitmap s0"
    using only_marking_changed_fields(7) [OF WhiteToGreyAndPush_only_marking [of s m]]
    by (simp add: s0_def)
  show ?thesis
  proof (cases "prototype h m")
    case (Smi n)
    then show ?thesis using assms True by (simp add: RetainMaps_entry_def Let_def)
  next
    case (HeapObject p)
    have "new_age = (if age > 0 \<and> IsWhite (marking_bitmap s0) p then age - 1 else age)"
      using assms True HeapObject by (auto simp add: RetainMaps_entry_def Let_def s0_def)
    then show ?thesis
      using True HeapObject IsWhite_antimono [OF sub, of p] by auto
  qed
qed

lemma RetainMaps_loop_ages:
  assumes "RetainMaps_loop fl h d i ms s = (s', ms')"
  shows "length ms' = length ms \<and>
    (\<forall>k < length ms. fst (ms' ! k) = fst (ms ! k) \<and>
       (case fst (ms ! k) of
          None \<Rightarrow> snd (ms' ! k) = snd (ms ! k)
        | Some m \<Rightarrow>
            (i + 2 * int k < number_of_disposed_maps h \<longrightarrow>
               snd (ms' ! k) = FLAG_retain_maps_for_n_gc fl) \<and>
            (snd (ms' ! k) = FLAG_retain_maps_for_n_gc fl \<or>
             (i + 2 * int k \<ge> number_of_disposed_maps h \<and> \<not> d \<and>
              IsWhite (marking_bitmap s) m \<and>
              (snd (ms' ! k) = snd (ms ! k) \<or>
               (snd (ms' ! k) = snd (ms ! k) - 1 \<and> snd (ms ! k) > 0 \<and>
                (\<exists>p. prototype h m = HeapObject p \<and> IsWhite (marking_bitmap s) p)))))))"
  using assms
proof (induction ms arbitrary: s i s' ms')
  case Nil
  then show ?case by simp
next
  case (Cons entry rest)
  obtain s1 new_age where e: "RetainMaps_entry fl h d i entry s = (s1, new_age)"
    by (cases "RetainMaps_entry fl h d i entry s")
  obtain s2 rest' where r: "RetainMaps_loop fl h d (i + 2) rest s1 = (s2, rest')"
    by (cases "RetainMaps_loop fl h d (i + 2) rest s1")
  have res: "s' = s2" "ms' = (fst entry, new_age) # rest'"
    using Cons.prems e r by simp_all
  have sub: "marking_bitmap s \<subseteq> marking_bitmap s1"
    using only_marking_changed_fields(7) [OF RetainMaps_entry_only_marking [of s fl h d i entry]] e
    by simp
  note IH = Cons.IH [OF r]
  have head: "case fst entry of
          None \<Rightarrow> new_age = snd entry
        | Some m \<Rightarrow>
            (i < number_of_disposed_maps h \<longrightarrow> new_age = FLAG_retain_maps_for_n_gc fl) \<and>
            (new_age = FLAG_retain_maps_for_n_gc fl \<or>
             (i \<ge> number_of_disposed_maps h \<and> \<not> d \<and> IsWhite (marking_bitmap s) m \<and>
              (new_age = snd entry \<or>
               (new_age = snd entry - 1 \<and> snd entry > 0 \<and>
                (\<exists>p. prototype h m = HeapObject p \<and> IsWhite (marking_bitmap s) p)))))"
  proof (cases entry)
    case (Pair cell age)
    show ?thesis
    proof (cases cell)
      case None
      then show ?thesis using e Pair by (simp add: RetainMaps_entry_def)
    next
      case (Some m)
      then show ?thesis using RetainMaps_entry_age [of fl h d i m age s s1 new_age] e Pair by simp
    qed
  qed
  show ?case
  proof (intro conjI allI impI)
    show "length ms' = length (entry # rest)" using IH res by simp
  next
    fix k assume k: "k < length (entry # rest)"
    show "fst (ms' ! k) = fst ((entry # rest) ! k)"
      using IH res k by (cases k) auto
  next
    fix k assume k: "k < length (entry # rest)"
    show "case fst ((entry # rest) ! k) of
          None \<Rightarrow> snd (ms' ! k) = snd ((entry # rest) ! k)
        | Some m \<Rightarrow>
            (i + 2 * int k < number_of_disposed_maps h \<longrightarrow>
               snd (ms' ! k) = FLAG_retain_maps_for_n_gc fl) \<and>
            (snd (ms' ! k) = FLAG_retain_maps_for_n_gc fl \<or>
             (i + 2 * int k \<ge> number_of_disposed_maps h \<and> \<not> d \<and>
              IsWhite (marking_bitmap s) m \<and>
              (snd (ms' ! k) = snd ((entry # rest) ! k) \<or>
               (snd (ms' ! k) = snd ((entry # rest) ! k) - 1 \<and> snd ((entry # rest) ! k) > 0 \<and>
                (\<exists>p. prototype h m = HeapObject p \<and> IsWhite (marking_bitmap s) p)))))"
    proof (cases k)
      case 0
      then have "ms' ! k = (fst entry, new_age)" "(entry # rest) ! k = entry"
        using res by simp_all
      then show ?thesis using head 0 by (simp split: option.splits)
    next
      case (Suc j)
      then have j: "j < length rest" using k by simp
      have idx: "i + 2 + 2 * int j = i + 2 * int k" using Suc by simp
      from IH j have tail: "case fst (rest ! j) of
          None \<Rightarrow> snd (rest' ! j) = snd (rest ! j)
        | Some m \<Rightarrow>
            (i + 2 + 2 * int j < number_of_disposed_maps h \<longrightarrow>
               snd (rest' ! j) = FLAG_retain_maps_for_n_gc fl) \<and>
            (snd (rest' ! j) = FLAG_retain_maps_for_n_gc fl \<or>
             (i + 2 + 2 * int j \<ge> number_of_disposed_maps h \<and> \<not> d \<and>
              IsWhite (marking_bitmap s1) m \<and>
              (snd (rest' ! j) = snd (rest ! j) \<or>
               (snd (rest' ! j) = snd (rest ! j) - 1 \<and> snd (rest ! j) > 0 \<and>
                (\<exists>p. prototype h m = HeapObject p \<and> IsWhite (marking_bitmap s1) p)))))"
        by blast
      show ?thesis
        using tail IsWhite_antimono [OF sub] unfolding idx
        by (auto simp: Suc res split: option.splits)
    qed
  qed
qed

text \<open>
  Claim C6. Ages lie in \<open>[0, MAX_AGE]\<close>, where MAX_AGE is FLAG_retain_maps_for_n_gc.
  For an entry whose weak cell is not cleared: the cell is kept; if its array index
  \<open>2 * k\<close> is before number_of_disposed_maps, its age is left unchanged or reset to
  MAX_AGE, and never decreased; and if its age decreases, then the entry is at or past
  that prefix, map retaining is enabled, the map was White, the age was positive, the
  prototype is a White heap object, and the age went down by one.
\<close>

theorem RetainMaps_ages:
  assumes "k < length (retained_maps s)" and "retained_maps s ! k = (Some m, age)"
  shows "fst (retained_maps (RetainMaps fl h s) ! k) = Some m \<and>
     (2 * int k < number_of_disposed_maps h \<longrightarrow>
        (snd (retained_maps (RetainMaps fl h s) ! k) = age \<or>
         snd (retained_maps (RetainMaps fl h s) ! k) = FLAG_retain_maps_for_n_gc fl) \<and>
        (age \<le> FLAG_retain_maps_for_n_gc fl \<longrightarrow>
           age \<le> snd (retained_maps (RetainMaps fl h s) ! k))) \<and>
     (snd (retained_maps (RetainMaps fl h s) ! k) < age \<and> age \<le> FLAG_retain_maps_for_n_gc fl \<longrightarrow>
        number_of_disposed_maps h \<le> 2 * int k \<and>
        \<not> (ShouldReduceMemory h \<or> ShouldAbortIncrementalMarking h \<or>
           FLAG_retain_maps_for_n_gc fl = 0) \<and>
        IsWhite (marking_bitmap s) m \<and> 0 < age \<and>
        (\<exists>p. prototype h m = HeapObject p \<and> IsWhite (marking_bitmap s) p) \<and>
        snd (retained_maps (RetainMaps fl h s) ! k) = age - 1)"
proof -
  define d where "d = (ShouldReduceMemory h \<or> ShouldAbortIncrementalMarking h \<or>
           FLAG_retain_maps_for_n_gc fl = 0)"
  obtain s1 maps where r: "RetainMaps_loop fl h d 0 (retained_maps s) s = (s1, maps)"
    by (cases "RetainMaps_loop fl h d 0 (retained_maps s) s")
  have maps: "retained_maps (RetainMaps fl h s) = maps"
    using r by (simp add: RetainMaps_def d_def)
  from RetainMaps_loop_ages [OF r] assms
  have "fst (maps ! k) = Some m \<and>
        (2 * int k < number_of_disposed_maps h \<longrightarrow> snd (maps ! k) = FLAG_retain_maps_for_n_gc fl) \<and>
        (snd (maps ! k) = FLAG_retain_maps_for_n_gc fl \<or>
          (number_of_disposed_maps h \<le> 2 * int k \<and> \<not> d \<and> IsWhite (marking_bitmap s) m \<and>
           (snd (maps ! k) = age \<or>
            (snd (maps ! k) = age - 1 \<and> 0 < age \<and>
             (\<exists>p. prototype h m = HeapObject p \<and> IsWhite (marking_bitmap s) p)))))"
    by fastforce
  then show ?thesis
    unfolding maps d_def [symmetric] by auto
qed

text \<open>
  On \<open>retained_maps_heap\<close>, with two entries of age 1: the first is in the disposed
  prefix and its age is reset to 2; the second has a White map and a White prototype,
  and its age goes down to 0.
\<close>

lemma retained_maps_example:
  "retained_maps (RetainMaps example_flags retained_maps_heap
      (example_state\<lparr>retained_maps := [(Some 300, 1), (Some 400, 1)]\<rparr>)) =
   [(Some 300, 2), (Some 400, 0)]"
  by (simp add: RetainMaps_def RetainMaps_entry_def ShouldRetainMap_def retained_maps_heap_def
      example_heap_def example_state_def example_flags_def IsWhite_def Let_def)

theorem RetainMaps_ages_witness:
  "snd (retained_maps (RetainMaps example_flags retained_maps_heap
      (example_state\<lparr>retained_maps := [(Some 300, 1), (Some 400, 1)]\<rparr>)) ! 0) = 2 \<and>
   snd (retained_maps (RetainMaps example_flags retained_maps_heap
      (example_state\<lparr>retained_maps := [(Some 300, 1), (Some 400, 1)]\<rparr>)) ! 1) = 0 \<and>
   number_of_disposed_maps retained_maps_heap \<le> 2 * int 1 \<and>
   IsWhite (marking_bitmap (example_state\<lparr>retained_maps := [(Some 300, 1), (Some 400, 1)]\<rparr>)) 400"
  using RetainMaps_ages [of 0 "example_state\<lparr>retained_maps := [(Some 300, 1), (Some 400, 1)]\<rparr>"
      300 1 example_flags retained_maps_heap]
    RetainMaps_ages [of 1 "example_state\<lparr>retained_maps := [(Some 300, 1), (Some 400, 1)]\<rparr>"
      400 1 example_flags retained_maps_heap]
  by (simp add: retained_maps_example)
     (simp add: retained_maps_heap_def example_heap_def example_state_def IsWhite_def)

section \<open>Properties of UpdateMarkingWorklistAfterScavenge\<close>

lemma set_map_filter: "set (List.map_filter f xs) = {y. \<exists>x \<in> set xs. f x = Some y}"
  by (induction xs) (auto simp: List.map_filter_simps split: option.splits)

lemma entries_Update: "set (entries (Update f wl)) = {y. \<exists>x \<in> set (entries wl). f x = Some y}"
  by (auto simp: entries_def Update_def set_map_filter)

lemma length_map_filter: "length (List.map_filter f xs) \<le> length xs"
  by (induction xs) (auto simp: List.map_filter_simps split: option.splits)

lemma scavenge_callback_Some:
  "scavenge_callback h s fm obj = Some out \<longleftrightarrow>
     (InFromSpace h obj \<and> map_word h obj = ForwardingAddress out) \<or>
     (\<not> InFromSpace h obj \<and> out = obj \<and>
      (if InToSpace h obj \<or> SWEEP_TO_ITERATE h (chunk_of h obj)
       then IsGrey (external_bitmap s) obj else object_map h obj \<noteq> fm))"
  by (auto simp: scavenge_callback_def split: MapWord.splits)

lemma map_filter_app:
  "List.map_filter f (xs @ ys) = List.map_filter f xs @ List.map_filter f ys"
  by (simp add: List.map_filter_def)

text \<open>
  Claim C3, amended. After UpdateMarkingWorklistAfterScavenge, while marking is active,
  the worklist holds, in their old order, the images of its old entries: an entry in
  from-space is replaced by its forwarding address, and dropped when it has none; an
  entry in to-space or on a sweep-to-iterate page is kept if and only if it is
  externally Grey; any other entry is dropped if its map is the one-pointer filler map
  and kept otherwise. Nothing else of the state changes. When no forwarding address of
  an entry lies in from-space, no entry of the new worklist points into from-space. The
  worklist does not grow.
\<close>

theorem UpdateMarkingWorklistAfterScavenge_entries:
  assumes "IsMarking s"
  shows
    "entries (worklist (UpdateMarkingWorklistAfterScavenge h s)) =
       List.map_filter
         (\<lambda>obj. if InFromSpace h obj
                then (case map_word h obj of
                        ForwardingAddress dest \<Rightarrow> Some dest
                      | MapPointer m \<Rightarrow> None)
                else if InToSpace h obj \<or> SWEEP_TO_ITERATE h (chunk_of h obj)
                then (if IsGrey (external_bitmap s) obj then Some obj else None)
                else (if object_map h obj = one_pointer_filler_map h then None else Some obj))
         (entries (worklist s)) \<and>
     (\<forall>obj dest. obj \<in> set (entries (worklist s)) \<and> InFromSpace h obj \<and>
         map_word h obj = ForwardingAddress dest \<longrightarrow>
         dest \<in> set (entries (worklist (UpdateMarkingWorklistAfterScavenge h s)))) \<and>
     (\<forall>obj \<in> set (entries (worklist s)).
         \<not> InFromSpace h obj \<and>
         (if InToSpace h obj \<or> SWEEP_TO_ITERATE h (chunk_of h obj)
          then IsGrey (external_bitmap s) obj
          else object_map h obj \<noteq> one_pointer_filler_map h) \<longrightarrow>
         obj \<in> set (entries (worklist (UpdateMarkingWorklistAfterScavenge h s)))) \<and>
     (\<forall>out \<in> set (entries (worklist (UpdateMarkingWorklistAfterScavenge h s))).
         (\<exists>obj \<in> set (entries (worklist s)).
             InFromSpace h obj \<and> map_word h obj = ForwardingAddress out) \<or>
         (out \<in> set (entries (worklist s)) \<and> \<not> InFromSpace h out \<and>
          (if InToSpace h out \<or> SWEEP_TO_ITERATE h (chunk_of h out)
           then IsGrey (external_bitmap s) out
           else object_map h out \<noteq> one_pointer_filler_map h))) \<and>
     ((\<forall>obj dest. obj \<in> set (entries (worklist s)) \<and> InFromSpace h obj \<and>
          map_word h obj = ForwardingAddress dest \<longrightarrow> \<not> InFromSpace h dest) \<longrightarrow>
      (\<forall>out \<in> set (entries (worklist (UpdateMarkingWorklistAfterScavenge h s))).
          \<not> InFromSpace h out)) \<and>
     length (entries (worklist (UpdateMarkingWorklistAfterScavenge h s))) \<le>
       length (entries (worklist s)) \<and>
     UpdateMarkingWorklistAfterScavenge h s =
       s\<lparr>worklist := worklist (UpdateMarkingWorklistAfterScavenge h s)\<rparr>"
proof -
  let ?f = "scavenge_callback h s (one_pointer_filler_map h)"
  have w: "worklist (UpdateMarkingWorklistAfterScavenge h s) = Update ?f (worklist s)"
    using assms by (simp add: UpdateMarkingWorklistAfterScavenge_def)
  have fr: "UpdateMarkingWorklistAfterScavenge h s =
       s\<lparr>worklist := worklist (UpdateMarkingWorklistAfterScavenge h s)\<rparr>"
    using assms by (simp add: UpdateMarkingWorklistAfterScavenge_def)
  have f: "?f = (\<lambda>obj. if InFromSpace h obj
                then (case map_word h obj of
                        ForwardingAddress dest \<Rightarrow> Some dest
                      | MapPointer m \<Rightarrow> None)
                else if InToSpace h obj \<or> SWEEP_TO_ITERATE h (chunk_of h obj)
                then (if IsGrey (external_bitmap s) obj then Some obj else None)
                else (if object_map h obj = one_pointer_filler_map h then None else Some obj))"
    by (rule ext) (simp add: scavenge_callback_def split: MapWord.splits)
  have e: "entries (Update ?f (worklist s)) = List.map_filter ?f (entries (worklist s))"
    by (simp add: entries_def Update_def map_filter_app)
  have len: "length (entries (Update ?f (worklist s))) \<le> length (entries (worklist s))"
    unfolding e by (rule length_map_filter)
  have rest: "(\<forall>obj dest. obj \<in> set (entries (worklist s)) \<and> InFromSpace h obj \<and>
         map_word h obj = ForwardingAddress dest \<longrightarrow>
         dest \<in> set (entries (Update ?f (worklist s)))) \<and>
     (\<forall>obj \<in> set (entries (worklist s)).
         \<not> InFromSpace h obj \<and>
         (if InToSpace h obj \<or> SWEEP_TO_ITERATE h (chunk_of h obj)
          then IsGrey (external_bitmap s) obj
          else object_map h obj \<noteq> one_pointer_filler_map h) \<longrightarrow>
         obj \<in> set (entries (Update ?f (worklist s)))) \<and>
     (\<forall>out \<in> set (entries (Update ?f (worklist s))).
         (\<exists>obj \<in> set (entries (worklist s)).
             InFromSpace h obj \<and> map_word h obj = ForwardingAddress out) \<or>
         (out \<in> set (entries (worklist s)) \<and> \<not> InFromSpace h out \<and>
          (if InToSpace h out \<or> SWEEP_TO_ITERATE h (chunk_of h out)
           then IsGrey (external_bitmap s) out
           else object_map h out \<noteq> one_pointer_filler_map h))) \<and>
     ((\<forall>obj dest. obj \<in> set (entries (worklist s)) \<and> InFromSpace h obj \<and>
          map_word h obj = ForwardingAddress dest \<longrightarrow> \<not> InFromSpace h dest) \<longrightarrow>
      (\<forall>out \<in> set (entries (Update ?f (worklist s))).
          \<not> InFromSpace h out))"
    by (simp add: entries_Update scavenge_callback_Some) blast
  have e': "entries (worklist (UpdateMarkingWorklistAfterScavenge h s)) =
       List.map_filter
         (\<lambda>obj. if InFromSpace h obj
                then (case map_word h obj of
                        ForwardingAddress dest \<Rightarrow> Some dest
                      | MapPointer m \<Rightarrow> None)
                else if InToSpace h obj \<or> SWEEP_TO_ITERATE h (chunk_of h obj)
                then (if IsGrey (external_bitmap s) obj then Some obj else None)
                else (if object_map h obj = one_pointer_filler_map h then None else Some obj))
         (entries (worklist s))"
    unfolding w e by (simp only: f)
  show ?thesis
    using e' rest [folded w] len [folded w] fr
    by (elim conjE, intro conjI) assumption+
qed

text \<open>
  The theorem on scenario S5 of the spec: the worklist holds 600, forwarded to 650, the
  filler 700 and the old-space object 800, all Grey; afterwards it holds 650 and 800.
\<close>

theorem UpdateMarkingWorklistAfterScavenge_entries_witness:
  "IsMarking scavenged_state \<and>
   entries (worklist scavenged_state) = [600, 700, 800] \<and>
   entries (worklist (UpdateMarkingWorklistAfterScavenge scavenge_heap scavenged_state)) =
     [650, 800] \<and>
   \<not> InFromSpace scavenge_heap 650 \<and> \<not> InFromSpace scavenge_heap 800"
proof -
  have m: "IsMarking scavenged_state"
    by (simp add: IsMarking_def scavenged_state_def example_state_def)
  have e: "entries (worklist scavenged_state) = [600, 700, 800]"
    by (simp add: entries_def scavenged_state_def example_state_def)
  note T = UpdateMarkingWorklistAfterScavenge_entries [OF m, of scavenge_heap, THEN conjunct1]
  have r: "entries (worklist (UpdateMarkingWorklistAfterScavenge scavenge_heap scavenged_state)) =
     [650, 800]"
    unfolding T e
    by (simp add: scavenge_heap_def example_heap_def object_map_def List.map_filter_simps)
  have s: "\<not> InFromSpace scavenge_heap 650" "\<not> InFromSpace scavenge_heap 800"
    by (simp_all add: scavenge_heap_def example_heap_def)
  show ?thesis using m e r s by simp
qed

text \<open>
  Claim C3 as stated fails for a filler on a sweep-to-iterate page: there the external
  colour decides. The old-space entry 700 has the one-pointer filler map, its page is
  marked sweep-to-iterate and it is externally Grey; it is kept.
\<close>

theorem UpdateMarkingWorklistAfterScavenge_filler_counterexample:
  "\<not> InFromSpace (scavenge_heap\<lparr>SWEEP_TO_ITERATE := (\<lambda>c. c = 0)\<rparr>) 700 \<and>
   \<not> InToSpace (scavenge_heap\<lparr>SWEEP_TO_ITERATE := (\<lambda>c. c = 0)\<rparr>) 700 \<and>
   object_map (scavenge_heap\<lparr>SWEEP_TO_ITERATE := (\<lambda>c. c = 0)\<rparr>) 700 =
     one_pointer_filler_map (scavenge_heap\<lparr>SWEEP_TO_ITERATE := (\<lambda>c. c = 0)\<rparr>) \<and>
   entries (worklist (UpdateMarkingWorklistAfterScavenge
      (scavenge_heap\<lparr>SWEEP_TO_ITERATE := (\<lambda>c. c = 0)\<rparr>)
      (example_state\<lparr>external_bitmap := {700},
         worklist := \<lparr>shared = [700], bailout = [], capacity = None\<rparr>\<rparr>))) = [700]"
  by (simp add: UpdateMarkingWorklistAfterScavenge_def Update_def entries_def IsMarking_def
      scavenge_callback_def scavenge_heap_def example_heap_def example_state_def
      object_map_def IsGrey_def List.map_filter_simps)

section \<open>Properties of Stop\<close>

text \<open>
  Deactivating the barrier page by page amounts to set operations on the two flags, and
  removing the observers space by space to removing the observer of every space.
\<close>

lemma foldl_SetOldSpacePageFlags:
  "foldl (\<lambda>t p. SetOldSpacePageFlags t p False c) s ps =
     s\<lparr>POINTERS_TO_HERE_ARE_INTERESTING := POINTERS_TO_HERE_ARE_INTERESTING s - set ps,
       POINTERS_FROM_HERE_ARE_INTERESTING := POINTERS_FROM_HERE_ARE_INTERESTING s \<union> set ps\<rparr>"
proof (induction ps arbitrary: s)
  case Nil
  show ?case by simp
next
  case (Cons p ps)
  have 1: "POINTERS_TO_HERE_ARE_INTERESTING s - {p} - set ps =
           POINTERS_TO_HERE_ARE_INTERESTING s - set (p # ps)" by auto
  have 2: "insert p (POINTERS_FROM_HERE_ARE_INTERESTING s \<union> set ps) =
           POINTERS_FROM_HERE_ARE_INTERESTING s \<union> set (p # ps)" by auto
  show ?case
    by (simp only: foldl_Cons Cons.IH) (simp add: SetOldSpacePageFlags_def 1 2 del: set_simps)
qed

lemma foldl_SetNewSpacePageFlags:
  "foldl (\<lambda>t p. SetNewSpacePageFlags t p False) s ps =
     s\<lparr>POINTERS_TO_HERE_ARE_INTERESTING := POINTERS_TO_HERE_ARE_INTERESTING s \<union> set ps,
       POINTERS_FROM_HERE_ARE_INTERESTING := POINTERS_FROM_HERE_ARE_INTERESTING s - set ps\<rparr>"
proof (induction ps arbitrary: s)
  case Nil
  show ?case by simp
next
  case (Cons p ps)
  have 1: "POINTERS_FROM_HERE_ARE_INTERESTING s - {p} - set ps =
           POINTERS_FROM_HERE_ARE_INTERESTING s - set (p # ps)" by auto
  have 2: "insert p (POINTERS_TO_HERE_ARE_INTERESTING s \<union> set ps) =
           POINTERS_TO_HERE_ARE_INTERESTING s \<union> set (p # ps)" by auto
  show ?case
    by (simp only: foldl_Cons Cons.IH) (simp add: SetNewSpacePageFlags_def Let_def 1 2 del: set_simps)
qed

lemma DeactivateIncrementalWriteBarrier_flags:
  "DeactivateIncrementalWriteBarrier h s =
     s\<lparr>POINTERS_TO_HERE_ARE_INTERESTING :=
         (POINTERS_TO_HERE_ARE_INTERESTING s - set (space_pages h OLD_SPACE)
            - set (space_pages h MAP_SPACE) - set (space_pages h CODE_SPACE))
           \<union> set (space_pages h NEW_SPACE) - set (space_pages h LO_SPACE),
       POINTERS_FROM_HERE_ARE_INTERESTING :=
         (POINTERS_FROM_HERE_ARE_INTERESTING s \<union> set (space_pages h OLD_SPACE)
            \<union> set (space_pages h MAP_SPACE) \<union> set (space_pages h CODE_SPACE))
           - set (space_pages h NEW_SPACE) \<union> set (space_pages h LO_SPACE)\<rparr>"
  by (simp add: DeactivateIncrementalWriteBarrier_def Let_def foldl_SetOldSpacePageFlags
      foldl_SetNewSpacePageFlags)

lemma RemoveAllocationObserver_all:
  "foldl RemoveAllocationObserver s all_spaces =
     s\<lparr>allocation_observers := (\<lambda>sp. allocation_observers s sp - {observer_of sp})\<rparr>"
proof -
  have "(\<lambda>sp. allocation_observers s sp - {observer_of sp}) =
        (allocation_observers s)
          (NEW_SPACE := allocation_observers s NEW_SPACE - {observer_of NEW_SPACE},
           OLD_SPACE := allocation_observers s OLD_SPACE - {observer_of OLD_SPACE},
           CODE_SPACE := allocation_observers s CODE_SPACE - {observer_of CODE_SPACE},
           MAP_SPACE := allocation_observers s MAP_SPACE - {observer_of MAP_SPACE},
           LO_SPACE := allocation_observers s LO_SPACE - {observer_of LO_SPACE})"
  proof
    fix sp show "allocation_observers s sp - {observer_of sp} =
        ((allocation_observers s)
          (NEW_SPACE := allocation_observers s NEW_SPACE - {observer_of NEW_SPACE},
           OLD_SPACE := allocation_observers s OLD_SPACE - {observer_of OLD_SPACE},
           CODE_SPACE := allocation_observers s CODE_SPACE - {observer_of CODE_SPACE},
           MAP_SPACE := allocation_observers s MAP_SPACE - {observer_of MAP_SPACE},
           LO_SPACE := allocation_observers s LO_SPACE - {observer_of LO_SPACE})) sp"
      by (cases sp) simp_all
  qed
  then show ?thesis
    by (simp add: all_spaces_def RemoveAllocationObserver_def)
qed

section \<open>The marking loop terminates\<close>

text \<open>
  Every round of the loop of ProcessMarkingWorklist lowers \<open>marking_potential\<close>: a pop
  shortens the worklist, a push of a White object clears one of the counted bits, and a
  FixedArray that pushes itself again has moved its progress bar by at least one word.
\<close>

lemma white_count_insert_le: "white_count B (s\<lparr>marking_bitmap := insert a (marking_bitmap s)\<rparr>) \<le> white_count B s"
  unfolding white_count_def by (rule card_mono) auto

lemma white_count_union_le: "white_count B (s\<lparr>marking_bitmap := marking_bitmap s \<union> A\<rparr>) \<le> white_count B s"
  unfolding white_count_def by (rule card_mono) auto

lemma white_count_insert_less:
  assumes "a < B" and "a \<notin> marking_bitmap s"
  shows "Suc (white_count B (s\<lparr>marking_bitmap := insert a (marking_bitmap s)\<rparr>)) = white_count B s"
proof -
  let ?W = "{i. i < B \<and> i \<notin> marking_bitmap s}"
  have fin: "finite ?W" by simp
  have eq: "{i. i < B \<and> i \<notin> insert a (marking_bitmap s)} = ?W - {a}"
    by auto
  have mem: "a \<in> ?W" using assms by simp
  have pos: "0 < card ?W" using fin mem by (auto simp: card_gt_0_iff)
  have "white_count B (s\<lparr>marking_bitmap := insert a (marking_bitmap s)\<rparr>) =
        card {i. i < B \<and> i \<notin> insert a (marking_bitmap s)}"
    by (simp add: white_count_def)
  also have "\<dots> = card (?W - {a})" by (simp only: eq)
  also have "\<dots> = card ?W - 1" using mem by (rule card_Diff_singleton)
  finally have "white_count B (s\<lparr>marking_bitmap := insert a (marking_bitmap s)\<rparr>) = card ?W - 1" .
  moreover have "white_count B s = card ?W" by (simp add: white_count_def)
  ultimately show ?thesis using pos by linarith
qed

lemma white_count_remove_le:
  "white_count B (s\<lparr>marking_bitmap := marking_bitmap s - {a}\<rparr>) \<le> Suc (white_count B s)"
proof -
  have "{i. i < B \<and> i \<notin> marking_bitmap s - {a}} \<subseteq> insert a {i. i < B \<and> i \<notin> marking_bitmap s}"
    by auto
  then have "card {i. i < B \<and> i \<notin> marking_bitmap s - {a}} \<le> card (insert a {i. i < B \<and> i \<notin> marking_bitmap s})"
    by (rule card_mono [rotated]) simp
  also have "\<dots> \<le> Suc (card {i. i < B \<and> i \<notin> marking_bitmap s})"
    by (simp add: card_insert_if)
  finally show ?thesis by (simp add: white_count_def)
qed

lemma visit_inv_refl: "worklist_bounded B s \<Longrightarrow> visit_inv B s s"
  by (simp add: visit_inv_def)

lemma WhiteToGreyAndPush_inv:
  assumes "obj < B" and "visit_inv B s0 t"
  shows "visit_inv B s0 (fst (WhiteToGreyAndPush t obj))"
proof (cases "IsWhite (marking_bitmap t) obj")
  case False
  then have "fst (WhiteToGreyAndPush t obj) = t"
    by (simp add: WhiteToGreyAndPush_def WhiteToGrey_def)
  then show ?thesis using assms by simp
next
  case True
  then have notin: "obj \<notin> marking_bitmap t" by (simp add: IsWhite_def)
  define t' where "t' = fst (WhiteToGreyAndPush t obj)"
  have r: "t' = t\<lparr>marking_bitmap := insert obj (marking_bitmap t),
                  worklist := fst (Push (worklist t) obj)\<rparr>"
    using True by (simp add: t'_def WhiteToGreyAndPush_def WhiteToGrey_def)
  have "white_count B t' = white_count B (t\<lparr>marking_bitmap := insert obj (marking_bitmap t)\<rparr>)"
    by (simp add: r white_count_def)
  then have wc: "white_count B t = Suc (white_count B t')"
    using white_count_insert_less [OF assms(1) notin] by simp
  have len: "length (entries (worklist t')) \<le> Suc (length (entries (worklist t)))"
    by (simp add: r Push_def entries_def)
  have bnd: "worklist_bounded B t'"
    using assms by (auto simp: r Push_def entries_def visit_inv_def worklist_bounded_def)
  have pb: "progress_bar t' = progress_bar t" by (simp add: r)
  have "queue_potential B t' \<le> queue_potential B t"
    using wc len by (simp add: queue_potential_def)
  then show ?thesis
    using assms(2) bnd pb unfolding t'_def [symmetric] by (simp add: visit_inv_def)
qed

lemma visit_inv_cong:
  assumes "worklist t' = worklist t" and "marking_bitmap t' = marking_bitmap t"
      and "progress_bar t' = progress_bar t"
  shows "visit_inv B s0 t' = visit_inv B s0 t"
  using assms by (simp add: visit_inv_def worklist_bounded_def queue_potential_def white_count_def)

lemma visit_inv_trans:
  "visit_inv B s0 s1 \<Longrightarrow> visit_inv B s1 s2 \<Longrightarrow> visit_inv B s0 s2"
  by (simp add: visit_inv_def)

lemma visit_inv_insert:
  assumes "visit_inv B s0 t"
  shows "visit_inv B s0 (t\<lparr>marking_bitmap := insert a (marking_bitmap t)\<rparr>)"
proof -
  have "queue_potential B (t\<lparr>marking_bitmap := insert a (marking_bitmap t)\<rparr>) \<le> queue_potential B t"
    using white_count_insert_le [of B a t] by (simp add: queue_potential_def)
  then show ?thesis
    using assms by (simp add: visit_inv_def worklist_bounded_def)
qed

lemma VisitPointer_inv:
  assumes "heap_bounded h B" and "visit_inv B s0 t"
  shows "visit_inv B s0 (VisitPointer h t host p)"
proof (cases "field h p")
  case (Smi n)
  then show ?thesis using assms by (simp add: VisitPointer_def)
next
  case (HeapObject a)
  have a: "a < B" using assms(1) HeapObject by (auto simp: heap_bounded_def)
  have "visit_inv B s0 (RecordSlot t host p a)"
    using assms(2) visit_inv_cong [of "RecordSlot t host p a" t B s0]
    by (simp add: RecordSlot_def)
  then show ?thesis
    using WhiteToGreyAndPush_inv [OF a] HeapObject by (simp add: VisitPointer_def)
qed

lemma VisitPointers_inv:
  assumes "heap_bounded h B" and "visit_inv B s0 t"
  shows "visit_inv B s0 (VisitPointers h t host p e)"
  by (rule VisitPointers_preserves [where P = "visit_inv B s0"])
     (simp_all add: VisitPointer_inv assms)

lemma IterateBody_inv:
  assumes "heap_bounded h B" and "visit_inv B s0 t"
  shows "visit_inv B s0 (IterateBody h t obj)"
  unfolding IterateBody_def
  by (rule foldl_preserves [where P = "visit_inv B s0"])
     (simp_all add: VisitPointer_inv assms)

lemma VisitFixedArray_loop_inv:
  "heap_bounded h B \<Longrightarrow> visit_inv B s0 s \<Longrightarrow>
   visit_inv B s0 (fst (VisitFixedArray_loop h s obj sz start e))"
proof (induction h s obj sz start e rule: VisitFixedArray_loop.induct)
  case (1 h s object object_size start_offset end_offset)
  define s1 where "s1 = (VisitPointers h s object start_offset end_offset)
                \<lparr>visited_ranges := visited_ranges s @ [(object, start_offset, end_offset)]\<rparr>"
  define e' where "e' = min object_size (end_offset + kProgressBarScanningChunk)"
  have "visit_inv B s0 (VisitPointers h s object start_offset end_offset)"
    using VisitPointers_inv "1.prems" by blast
  then have inv1: "visit_inv B s0 s1"
    using visit_inv_cong [of s1 "VisitPointers h s object start_offset end_offset" B s0]
    by (simp add: s1_def)
  show ?case
  proof (cases "IsFull (worklist s1) \<and> end_offset < object_size")
    case True
    have unf: "VisitFixedArray_loop h s object object_size start_offset end_offset =
               VisitFixedArray_loop h s1 object object_size end_offset e'"
      using True by (subst VisitFixedArray_loop.simps) (simp add: s1_def e'_def Let_def)
    show ?thesis
      unfolding unf using "1.IH" [OF s1_def refl e'_def refl _ "1.prems"(1) inv1] True by simp
  next
    case False
    have unf: "VisitFixedArray_loop h s object object_size start_offset end_offset = (s1, end_offset)"
      using False by (subst VisitFixedArray_loop.simps) (auto simp add: s1_def e'_def Let_def)
    show ?thesis unfolding unf using inv1 by simp
  qed
qed

lemma visit_inv_potential:
  assumes "visit_inv B s0 t"
  shows "marking_potential h B t \<le> marking_potential h B s0"
proof -
  have pb: "progress_bar t = progress_bar s0" using assms by (simp add: visit_inv_def)
  have "(\<Sum>obj < B. remaining_scan h t obj) = (\<Sum>obj < B. remaining_scan h s0 obj)"
    by (simp only: remaining_scan_def pb)
  then show ?thesis
    using assms by (simp add: marking_potential_def visit_inv_def)
qed

lemma remaining_scan_mono:
  assumes "\<And>c. progress_bar s c \<le> progress_bar t c"
  shows "remaining_scan h t obj \<le> remaining_scan h s obj"
proof -
  have "progress_bar s (chunk_of h obj) \<le> progress_bar t (chunk_of h obj)"
    by (rule assms)
  then have "max kStartOffset (progress_bar s (chunk_of h obj)) \<le>
        max kStartOffset (progress_bar t (chunk_of h obj))"
    by (rule max.mono [OF order_refl])
  then have "nat (SizeFromMap h obj - max kStartOffset (progress_bar t (chunk_of h obj))) \<le>
             nat (SizeFromMap h obj - max kStartOffset (progress_bar s (chunk_of h obj)))"
    by linarith
  then show ?thesis unfolding remaining_scan_def by (simp del: max_less_iff_conj)
qed

lemma entries_PushBailout:
  "set (entries (PushBailout wl obj)) = insert obj (set (entries wl))"
  "length (entries (PushBailout wl obj)) = Suc (length (entries wl))"
  by (simp_all add: PushBailout_def entries_def)

lemma entries_Push:
  "set (entries (fst (Push wl obj))) \<subseteq> insert obj (set (entries wl))"
  "length (entries (fst (Push wl obj))) \<le> Suc (length (entries wl))"
  by (auto simp: Push_def entries_def)

lemma PushBlack_cases:
  "PushBlack s obj =
     (if IsFull (worklist s) then s\<lparr>marking_bitmap := BlackToGrey (marking_bitmap s) obj\<rparr>
      else s\<lparr>worklist := fst (Push (worklist s) obj)\<rparr>)"
  by (simp add: PushBlack_def Push_def)

lemma potential_of_worklist_update:
  assumes "worklist_bounded B s" and "obj < B"
      and "set (entries wl) \<subseteq> insert obj (set (entries (worklist s)))"
      and "length (entries wl) \<le> Suc (length (entries (worklist s)))"
  shows "worklist_bounded B (s\<lparr>worklist := wl\<rparr>)"
    and "queue_potential B (s\<lparr>worklist := wl\<rparr>) \<le> queue_potential B s + 2"
proof -
  show "worklist_bounded B (s\<lparr>worklist := wl\<rparr>)"
    using assms(1,2,3) unfolding worklist_bounded_def by auto
  have "white_count B (s\<lparr>worklist := wl\<rparr>) = white_count B s"
    by (simp add: white_count_def)
  then show "queue_potential B (s\<lparr>worklist := wl\<rparr>) \<le> queue_potential B s + 2"
    using assms(4) unfolding queue_potential_def by simp
qed

lemma potential_of_BlackToGrey:
  assumes "worklist_bounded B s"
  shows "worklist_bounded B (s\<lparr>marking_bitmap := BlackToGrey (marking_bitmap s) obj\<rparr>)"
    and "queue_potential B (s\<lparr>marking_bitmap := BlackToGrey (marking_bitmap s) obj\<rparr>)
           \<le> queue_potential B s + 2"
proof -
  show "worklist_bounded B (s\<lparr>marking_bitmap := BlackToGrey (marking_bitmap s) obj\<rparr>)"
    using assms unfolding worklist_bounded_def by simp
  have "white_count B (s\<lparr>marking_bitmap := BlackToGrey (marking_bitmap s) obj\<rparr>) \<le>
        Suc (white_count B s)"
    using white_count_remove_le [of B s "Suc obj"] by (simp add: BlackToGrey_def)
  then show "queue_potential B (s\<lparr>marking_bitmap := BlackToGrey (marking_bitmap s) obj\<rparr>)
           \<le> queue_potential B s + 2"
    unfolding queue_potential_def by simp
qed

lemma self_push_potential:
  fixes fl :: Flags
  assumes wb: "worklist_bounded B s" and lt: "obj < B"
  defines "s1 \<equiv> (if V8_CONCURRENT_MARKING fl
                            then s\<lparr>worklist := PushBailout (worklist s) obj\<rparr>
                            else if IsGrey (marking_bitmap s) obj
                                 then s\<lparr>worklist := fst (Push (worklist s) obj)\<rparr>
                                 else PushBlack s obj)"
  shows "worklist_bounded B s1 \<and> queue_potential B s1 \<le> queue_potential B s + 2 \<and>
         progress_bar s1 = progress_bar s"
proof -
  have a: "worklist_bounded B (s\<lparr>worklist := PushBailout (worklist s) obj\<rparr>) \<and>
           queue_potential B (s\<lparr>worklist := PushBailout (worklist s) obj\<rparr>) \<le> queue_potential B s + 2"
    using potential_of_worklist_update [OF wb lt, of "PushBailout (worklist s) obj"]
    by (simp add: entries_PushBailout)
  have b: "worklist_bounded B (s\<lparr>worklist := fst (Push (worklist s) obj)\<rparr>) \<and>
           queue_potential B (s\<lparr>worklist := fst (Push (worklist s) obj)\<rparr>) \<le> queue_potential B s + 2"
    using potential_of_worklist_update [OF wb lt, of "fst (Push (worklist s) obj)"]
    by (simp add: entries_Push)
  have c: "worklist_bounded B (PushBlack s obj) \<and>
           queue_potential B (PushBlack s obj) \<le> queue_potential B s + 2"
    using b potential_of_BlackToGrey [OF wb, of obj] by (simp add: PushBlack_cases)
  have pb: "progress_bar s1 = progress_bar s"
    by (simp add: s1_def PushBlack_cases)
  show ?thesis
    using a b c pb by (simp add: s1_def)
qed

lemma VisitFixedArray_potential:
  assumes hb: "heap_bounded h B" and wb: "worklist_bounded B s" and lt: "obj < B"
      and fa: "visitor_id h (object_map h obj) = kVisitFixedArray"
  shows "worklist_bounded B (fst (VisitFixedArray fl h s obj)) \<and>
         marking_potential h B (fst (VisitFixedArray fl h s obj)) \<le> marking_potential h B s"
proof (cases "HAS_PROGRESS_BAR h (chunk_of h obj)")
  case False
  then have "fst (VisitFixedArray fl h s obj) = VisitPointers h s obj kStartOffset (SizeFromMap h obj)"
    by (simp add: VisitFixedArray_def Let_def)
  moreover have "visit_inv B s (VisitPointers h s obj kStartOffset (SizeFromMap h obj))"
    using VisitPointers_inv [OF hb visit_inv_refl [OF wb]] .
  ultimately show ?thesis
    using visit_inv_potential [of B s "VisitPointers h s obj kStartOffset (SizeFromMap h obj)" h]
    by (simp add: visit_inv_def)
next
  case pb: True
  define start where "start = max kStartOffset (progress_bar s (chunk_of h obj))"
  define sz where "sz = SizeFromMap h obj"
  show ?thesis
  proof (cases "start < sz")
    case False
    then have "fst (VisitFixedArray fl h s obj) = s"
      using pb by (simp add: VisitFixedArray_def Let_def start_def [symmetric] sz_def [symmetric])
    then show ?thesis using wb by simp
  next
    case True
    define e where "e = min sz (start + kProgressBarScanningChunk)"
    define s1 where "s1 = (if V8_CONCURRENT_MARKING fl
                            then s\<lparr>worklist := PushBailout (worklist s) obj\<rparr>
                            else if IsGrey (marking_bitmap s) obj
                                 then s\<lparr>worklist := fst (Push (worklist s) obj)\<rparr>
                                 else PushBlack s obj)"
    have s1: "worklist_bounded B s1" "queue_potential B s1 \<le> queue_potential B s + 2"
      "progress_bar s1 = progress_bar s"
      unfolding s1_def using self_push_potential [OF wb lt, of fl] by simp_all
    obtain s2 start' where res: "VisitFixedArray_loop h s1 obj sz start e = (s2, start')"
      by (cases "VisitFixedArray_loop h s1 obj sz start e")
    have "e \<le> sz" by (simp add: e_def)
    from VisitFixedArray_loop_result [OF this, where h = h and s = s1 and obj = obj and start = start] res
    have f1: "start' = (if IsFull (worklist s2) then sz else e)"
      by auto
    have gt: "start < start'"
      using f1 True by (auto simp: e_def kProgressBarScanningChunk_def)
    have inv2: "visit_inv B s1 s2"
      using VisitFixedArray_loop_inv [OF hb visit_inv_refl [OF s1(1)], where obj = obj and sz = sz
          and start = start and e = e] res by simp
    define s3 where "s3 = s2\<lparr>progress_bar := (progress_bar s2)(chunk_of h obj := start')\<rparr>"
    define s' where "s' = fst (VisitFixedArray fl h s obj)"
    have unf: "VisitFixedArray fl h s obj =
      (if start' < sz then (NotifyIncompleteScanOfObject s3 (sz - (start' - start)), sz) else (s3, sz))"
      using pb True res
      by (simp add: VisitFixedArray_def Let_def start_def [symmetric] sz_def [symmetric]
          e_def [symmetric] s1_def [symmetric] s3_def [symmetric])
    have fin: "worklist s' = worklist s2" "marking_bitmap s' = marking_bitmap s2"
      "progress_bar s' = (progress_bar s)(chunk_of h obj := start')"
      using inv2 s1(3)
      by (auto simp: s'_def unf s3_def NotifyIncompleteScanOfObject_def visit_inv_def)
    have wb': "worklist_bounded B s'"
      using inv2 fin by (simp add: worklist_bounded_def visit_inv_def)
    have qp: "queue_potential B s' \<le> queue_potential B s + 2"
    proof -
      have "queue_potential B s' = queue_potential B s2"
        using fin by (simp add: queue_potential_def white_count_def)
      then show ?thesis using inv2 s1(2) by (simp add: visit_inv_def)
    qed
    have mono: "\<And>o'. remaining_scan h s' o' \<le> remaining_scan h s o'"
    proof (rule remaining_scan_mono)
      fix c show "progress_bar s c \<le> progress_bar s' c"
        using gt by (simp add: fin start_def)
    qed
    have strict: "remaining_scan h s' obj < remaining_scan h s obj"
    proof -
      have "max kStartOffset start' = start'" using gt by (simp add: start_def)
      then show ?thesis
        using gt True fa pb by (simp add: remaining_scan_def fin start_def [symmetric] sz_def [symmetric])
    qed
    have "(\<Sum>o' < B. remaining_scan h s' o') < (\<Sum>o' < B. remaining_scan h s o')"
      by (rule sum_strict_mono_ex1) (use mono strict lt in auto)
    then have "marking_potential h B s' \<le> marking_potential h B s"
      using qp by (simp add: marking_potential_def)
    then show ?thesis using wb' by (simp add: s'_def)
  qed
qed

lemma visit_inv_GreyToBlack:
  assumes "visit_inv B s0 t"
  shows "visit_inv B s0 (t\<lparr>marking_bitmap := fst (GreyToBlack (marking_bitmap t) obj)\<rparr>)"
proof (cases "IsGrey (marking_bitmap t) obj")
  case True
  then show ?thesis using visit_inv_insert [OF assms, of "Suc obj"] by (simp add: GreyToBlack_def)
next
  case False
  then show ?thesis
    using assms visit_inv_cong [of "t\<lparr>marking_bitmap := marking_bitmap t\<rparr>" t B s0]
    by (simp add: GreyToBlack_def)
qed

lemma visit_inv_WhiteToGrey:
  assumes "visit_inv B s0 t"
  shows "visit_inv B s0 (t\<lparr>marking_bitmap := fst (WhiteToGrey (marking_bitmap t) obj)\<rparr>)"
proof (cases "IsWhite (marking_bitmap t) obj")
  case True
  then show ?thesis using visit_inv_insert [OF assms, of obj] by (simp add: WhiteToGrey_def)
next
  case False
  then show ?thesis
    using assms visit_inv_cong [of "t\<lparr>marking_bitmap := marking_bitmap t\<rparr>" t B s0]
    by (simp add: WhiteToGrey_def)
qed

lemma VisitNativeContext_inv:
  assumes "heap_bounded h B" and "visit_inv B s0 t"
  shows "visit_inv B s0 (fst (VisitNativeContext h t context))"
proof -
  define t1 where "t1 = (if \<not> IsUndefined h (normalized_map_cache h context)
                then (case normalized_map_cache h context of
                        HeapObject heap_obj \<Rightarrow>
                          t\<lparr>marking_bitmap := fst (WhiteToGrey (marking_bitmap t) heap_obj)\<rparr>
                      | Smi n \<Rightarrow> t)
                else t)"
  have "visit_inv B s0 t1"
    using assms(2) visit_inv_WhiteToGrey [OF assms(2)]
    by (simp add: t1_def split: object.splits)
  then have "visit_inv B s0 (IterateBody h t1 context)"
    by (rule IterateBody_inv [OF assms(1)])
  then show ?thesis
    by (simp add: VisitNativeContext_def Let_def t1_def)
qed

lemma VisitObject_potential:
  assumes hb: "heap_bounded h B" and wb: "worklist_bounded B s" and lt: "obj < B"
  shows "worklist_bounded B (VisitObject fl h s (object_map h obj) obj) \<and>
         marking_potential h B (VisitObject fl h s (object_map h obj) obj) \<le> marking_potential h B s"
proof -
  define s1 where "s1 = s\<lparr>marking_bitmap := fst (GreyToBlack (marking_bitmap s) obj)\<rparr>"
  define s2 where "s2 = fst (WhiteToGreyAndPush s1 (object_map h obj))"
  have i1: "visit_inv B s s1"
    unfolding s1_def by (rule visit_inv_GreyToBlack [OF visit_inv_refl [OF wb]])
  have m: "object_map h obj < B" using hb by (simp add: heap_bounded_def)
  have i2: "visit_inv B s s2"
    unfolding s2_def by (rule WhiteToGreyAndPush_inv [OF m i1])
  have wb2: "worklist_bounded B s2" using i2 by (simp add: visit_inv_def)
  have p2: "marking_potential h B s2 \<le> marking_potential h B s"
    by (rule visit_inv_potential [OF i2])
  have unf: "VisitObject fl h s (object_map h obj) obj = fst (Visit fl h s2 (object_map h obj) obj)"
    by (simp add: VisitObject_def Let_def s1_def s2_def)
  show ?thesis
  proof (cases "visitor_id h (object_map h obj)")
    case kVisitFixedArray
    then have "fst (Visit fl h s2 (object_map h obj) obj) = fst (VisitFixedArray fl h s2 obj)"
      by (simp add: Visit_def)
    then show ?thesis
      unfolding unf using VisitFixedArray_potential [OF hb wb2 lt kVisitFixedArray, of fl] p2 by simp
  next
    case kVisitNativeContext
    then have e: "fst (Visit fl h s2 (object_map h obj) obj) = fst (VisitNativeContext h s2 obj)"
      by (simp add: Visit_def)
    have "visit_inv B s (fst (VisitNativeContext h s2 obj))"
      by (rule VisitNativeContext_inv [OF hb i2])
    then show ?thesis
      unfolding unf e using visit_inv_potential [of B s "fst (VisitNativeContext h s2 obj)" h]
      by (simp add: visit_inv_def)
  next
    case kVisitOther
    then have e: "fst (Visit fl h s2 (object_map h obj) obj) = IterateBody h s2 obj"
      by (simp add: Visit_def)
    have "visit_inv B s (IterateBody h s2 obj)"
      by (rule IterateBody_inv [OF hb i2])
    then show ?thesis
      unfolding unf e using visit_inv_potential [of B s "IterateBody h s2 obj" h]
      by (simp add: visit_inv_def)
  qed
qed

lemma Pop_None: "fst (Pop wl) = None \<longleftrightarrow> IsEmpty wl"
  by (simp add: Pop_def IsEmpty_def)

lemma Pop_Some:
  assumes "Pop wl = (Some obj, wl')"
  shows "obj \<in> set (entries wl)" and "set (entries wl') \<subseteq> set (entries wl)"
    and "Suc (length (entries wl')) = length (entries wl)"
proof -
  have "obj \<in> set (entries wl) \<and> set (entries wl') \<subseteq> set (entries wl) \<and>
        Suc (length (entries wl')) = length (entries wl)"
  proof (cases "bailout wl = []")
    case False
    then have "obj = last (bailout wl)" "wl' = wl\<lparr>bailout := butlast (bailout wl)\<rparr>"
      using assms by (simp_all add: Pop_def)
    then show ?thesis
      using False by (auto simp: entries_def dest: in_set_butlastD)
  next
    case True
    then have ne: "shared wl \<noteq> []" using assms by (auto simp: Pop_def split: if_splits)
    then have "obj = last (shared wl)" "wl' = wl\<lparr>shared := butlast (shared wl)\<rparr>"
      using assms True by (simp_all add: Pop_def)
    then show ?thesis
      using ne True by (auto simp: entries_def dest: in_set_butlastD)
  qed
  then show "obj \<in> set (entries wl)" and "set (entries wl') \<subseteq> set (entries wl)"
    and "Suc (length (entries wl')) = length (entries wl)" by blast+
qed

lemma potential_after_Pop:
  assumes "Pop (worklist s) = (Some obj, wl)" and "worklist_bounded B s"
  shows "worklist_bounded B (s\<lparr>worklist := wl, unscanned_bytes_of_large_object := u\<rparr>)"
    and "marking_potential h B (s\<lparr>worklist := wl, unscanned_bytes_of_large_object := u\<rparr>)
           < marking_potential h B s"
    and "worklist_bounded B (s\<lparr>worklist := wl\<rparr>)"
    and "marking_potential h B (s\<lparr>worklist := wl\<rparr>) < marking_potential h B s"
    and "obj < B"
proof -
  note P = Pop_Some [OF assms(1)]
  show "obj < B" using P(1) assms(2) by (auto simp: worklist_bounded_def)
  show "worklist_bounded B (s\<lparr>worklist := wl, unscanned_bytes_of_large_object := u\<rparr>)"
    "worklist_bounded B (s\<lparr>worklist := wl\<rparr>)"
    using P(2) assms(2) by (auto simp: worklist_bounded_def)
  have "white_count B (s\<lparr>worklist := wl, unscanned_bytes_of_large_object := u\<rparr>) = white_count B s"
    "white_count B (s\<lparr>worklist := wl\<rparr>) = white_count B s"
    by (simp_all add: white_count_def)
  moreover have "(\<Sum>o' < B. remaining_scan h (s\<lparr>worklist := wl, unscanned_bytes_of_large_object := u\<rparr>) o')
        = (\<Sum>o' < B. remaining_scan h s o')"
     "(\<Sum>o' < B. remaining_scan h (s\<lparr>worklist := wl\<rparr>) o') = (\<Sum>o' < B. remaining_scan h s o')"
    by (simp_all add: remaining_scan_def cong: if_cong)
  ultimately show "marking_potential h B (s\<lparr>worklist := wl, unscanned_bytes_of_large_object := u\<rparr>)
           < marking_potential h B s"
    "marking_potential h B (s\<lparr>worklist := wl\<rparr>) < marking_potential h B s"
    using P(3) by (simp_all add: marking_potential_def queue_potential_def)
qed

lemma ProcessMarkingWorklist_loop_terminates:
  assumes hb: "heap_bounded h B"
  shows "worklist_bounded B s \<Longrightarrow>
    \<exists>s' n. ProcessMarkingWorklist_loop fl h btp c s bp = Some (s', n) \<and>
       worklist_bounded B s' \<and>
       marking_potential h B s' \<le> marking_potential h B s \<and>
       ((bp < btp \<or> c = FORCE_COMPLETION) \<and> \<not> IsEmpty (worklist s) \<longrightarrow>
          marking_potential h B s' < marking_potential h B s) \<and>
       (c = FORCE_COMPLETION \<longrightarrow> IsEmpty (worklist s'))"
proof (induction "marking_potential h B s" arbitrary: s bp rule: less_induct)
  case less
  show ?case
  proof (cases "bp < btp \<or> c = FORCE_COMPLETION")
    case False
    then have "ProcessMarkingWorklist_loop fl h btp c s bp = Some (s, bp)"
      by (subst ProcessMarkingWorklist_loop.simps) simp
    then show ?thesis using False less.prems by simp
  next
    case go: True
    obtain r wl where pop: "Pop (worklist s) = (r, wl)" by (cases "Pop (worklist s)")
    show ?thesis
    proof (cases r)
      case None
      then have emp: "IsEmpty (worklist s)" using pop Pop_None [of "worklist s"] by simp
      have "ProcessMarkingWorklist_loop fl h btp c s bp = Some (s, bp)"
        using go pop None by (subst ProcessMarkingWorklist_loop.simps) simp
      then show ?thesis using emp less.prems by simp
    next
      case (Some obj)
      note pop' = pop [unfolded Some]
      note A = potential_after_Pop [OF pop' less.prems]
      show ?thesis
      proof (cases "IsFiller h obj")
        case True
        define s1 where "s1 = s\<lparr>worklist := wl\<rparr>"
        have unf: "ProcessMarkingWorklist_loop fl h btp c s bp =
                   ProcessMarkingWorklist_loop fl h btp c s1 bp"
          using go pop' True by (subst ProcessMarkingWorklist_loop.simps) (simp add: s1_def)
        have lt: "marking_potential h B s1 < marking_potential h B s"
          and wb: "worklist_bounded B s1"
          using A(3) A(4) [where h = h] by (simp_all add: s1_def)
        from less.hyps [OF lt wb, of bp] obtain s' n where
          r: "ProcessMarkingWorklist_loop fl h btp c s1 bp = Some (s', n)"
             "worklist_bounded B s'" "marking_potential h B s' \<le> marking_potential h B s1"
             "c = FORCE_COMPLETION \<longrightarrow> IsEmpty (worklist s')"
          by blast
        show ?thesis
          unfolding unf using r lt by auto
      next
        case False
        define s1 where "s1 = s\<lparr>worklist := wl, unscanned_bytes_of_large_object := 0\<rparr>"
        define s2 where "s2 = VisitObject fl h s1 (object_map h obj) obj"
        define bp' where "bp' = bp + SizeFromMap h obj - unscanned_bytes_of_large_object s2"
        have unf: "ProcessMarkingWorklist_loop fl h btp c s bp =
                   ProcessMarkingWorklist_loop fl h btp c s2 bp'"
          using go pop' False
          by (subst ProcessMarkingWorklist_loop.simps) (simp add: s1_def s2_def bp'_def)
        have lt1: "marking_potential h B s1 < marking_potential h B s"
          and wb1: "worklist_bounded B s1"
          using A(1) [where u = 0] A(2) [where u = 0 and h = h] by (simp_all add: s1_def)
        have v: "worklist_bounded B s2" "marking_potential h B s2 \<le> marking_potential h B s1"
          using VisitObject_potential [OF hb wb1 A(5), of fl] by (simp_all add: s2_def)
        have lt: "marking_potential h B s2 < marking_potential h B s"
          using v(2) lt1 by simp
        from less.hyps [OF lt v(1), of bp'] obtain s' n where
          r: "ProcessMarkingWorklist_loop fl h btp c s2 bp' = Some (s', n)"
             "worklist_bounded B s'" "marking_potential h B s' \<le> marking_potential h B s2"
             "c = FORCE_COMPLETION \<longrightarrow> IsEmpty (worklist s')"
          by blast
        show ?thesis
          unfolding unf using r lt by auto
      qed
    qed
  qed
qed

text \<open>What the loop leaves alone: it writes only the fields of the marking visitor.\<close>

lemma only_visitor_changed_refl: "only_visitor_changed s s"
  by (simp add: only_visitor_changed_def)

lemma only_visitor_changed_trans:
  assumes "only_visitor_changed s t" and "only_visitor_changed t u"
  shows "only_visitor_changed s u"
proof -
  have "u\<lparr>marking_bitmap := marking_bitmap t, worklist := worklist t,
         recorded_slots := recorded_slots t, progress_bar := progress_bar t,
         unscanned_bytes_of_large_object := unscanned_bytes_of_large_object t,
         visited_ranges := visited_ranges t\<rparr>
        \<lparr>marking_bitmap := marking_bitmap s, worklist := worklist s,
         recorded_slots := recorded_slots s, progress_bar := progress_bar s,
         unscanned_bytes_of_large_object := unscanned_bytes_of_large_object s,
         visited_ranges := visited_ranges s\<rparr> = s"
    using assms by (simp only: only_visitor_changed_def)
  then show ?thesis by (simp add: only_visitor_changed_def)
qed

lemma only_visitor_changed_fields:
  assumes "only_visitor_changed s s'"
  shows "bytes_marked_ahead_of_schedule s' = bytes_marked_ahead_of_schedule s"
    "state s' = state s"
    "finalize_marking_completed s' = finalize_marking_completed s"
    "idle_marking_delay_counter s' = idle_marking_delay_counter s"
proof -
  let ?r = "s'\<lparr>marking_bitmap := marking_bitmap s, worklist := worklist s,
         recorded_slots := recorded_slots s, progress_bar := progress_bar s,
         unscanned_bytes_of_large_object := unscanned_bytes_of_large_object s,
         visited_ranges := visited_ranges s\<rparr>"
  have e: "?r = s" using assms by (simp only: only_visitor_changed_def)
  have "bytes_marked_ahead_of_schedule ?r = bytes_marked_ahead_of_schedule s" by (simp only: e)
  then show "bytes_marked_ahead_of_schedule s' = bytes_marked_ahead_of_schedule s" by simp
  have "state ?r = state s" by (simp only: e)
  then show "state s' = state s" by simp
  have "finalize_marking_completed ?r = finalize_marking_completed s" by (simp only: e)
  then show "finalize_marking_completed s' = finalize_marking_completed s" by simp
  have "idle_marking_delay_counter ?r = idle_marking_delay_counter s" by (simp only: e)
  then show "idle_marking_delay_counter s' = idle_marking_delay_counter s" by simp
qed

lemma only_visitor_changed_update:
  "only_visitor_changed s (s\<lparr>marking_bitmap := bm\<rparr>)"
  "only_visitor_changed s (s\<lparr>worklist := wl\<rparr>)"
  "only_visitor_changed s (s\<lparr>recorded_slots := rs\<rparr>)"
  "only_visitor_changed s (s\<lparr>progress_bar := pb\<rparr>)"
  "only_visitor_changed s (s\<lparr>unscanned_bytes_of_large_object := u\<rparr>)"
  "only_visitor_changed s (s\<lparr>visited_ranges := vr\<rparr>)"
  by (simp_all add: only_visitor_changed_def)

lemma WhiteToGreyAndPush_visitor: "only_visitor_changed s (fst (WhiteToGreyAndPush s obj))"
  by (simp add: WhiteToGreyAndPush_def WhiteToGrey_def only_visitor_changed_def)

lemma VisitPointer_visitor: "only_visitor_changed s (VisitPointer h s host p)"
  by (simp add: VisitPointer_def RecordSlot_def WhiteToGreyAndPush_def WhiteToGrey_def
      only_visitor_changed_def split: object.splits)

lemma VisitPointers_visitor: "only_visitor_changed s (VisitPointers h s host p e)"
  by (rule VisitPointers_preserves [where P = "only_visitor_changed s"])
     (auto intro: only_visitor_changed_trans VisitPointer_visitor only_visitor_changed_refl)

lemma IterateBody_visitor: "only_visitor_changed s (IterateBody h s obj)"
  unfolding IterateBody_def
  by (rule foldl_preserves [where P = "only_visitor_changed s"])
     (auto intro: only_visitor_changed_trans VisitPointer_visitor only_visitor_changed_refl)

lemma VisitFixedArray_loop_visitor:
  "only_visitor_changed s (fst (VisitFixedArray_loop h s obj sz start e))"
proof (induction h s obj sz start e rule: VisitFixedArray_loop.induct)
  case (1 h s object object_size start_offset end_offset)
  define s1 where "s1 = (VisitPointers h s object start_offset end_offset)
                \<lparr>visited_ranges := visited_ranges s @ [(object, start_offset, end_offset)]\<rparr>"
  define e' where "e' = min object_size (end_offset + kProgressBarScanningChunk)"
  have v1: "only_visitor_changed s s1"
    unfolding s1_def
    by (rule only_visitor_changed_trans [OF VisitPointers_visitor only_visitor_changed_update(6)])
  show ?case
  proof (cases "IsFull (worklist s1) \<and> end_offset < object_size")
    case True
    have unf: "VisitFixedArray_loop h s object object_size start_offset end_offset =
               VisitFixedArray_loop h s1 object object_size end_offset e'"
      using True by (subst VisitFixedArray_loop.simps) (simp add: s1_def e'_def Let_def)
    have "only_visitor_changed s1 (fst (VisitFixedArray_loop h s1 object object_size end_offset e'))"
      using "1.IH" [OF s1_def refl e'_def refl] True by simp
    then show ?thesis
      unfolding unf by (rule only_visitor_changed_trans [OF v1])
  next
    case False
    have unf: "VisitFixedArray_loop h s object object_size start_offset end_offset = (s1, end_offset)"
      using False by (subst VisitFixedArray_loop.simps) (auto simp add: s1_def e'_def Let_def)
    show ?thesis unfolding unf using v1 by simp
  qed
qed

lemma PushBlack_visitor: "only_visitor_changed s (PushBlack s obj)"
  by (simp add: PushBlack_cases only_visitor_changed_update)

lemma VisitFixedArray_visitor: "only_visitor_changed s (fst (VisitFixedArray fl h s obj))"
proof -
  define s1 where "s1 = (if V8_CONCURRENT_MARKING fl
                            then s\<lparr>worklist := PushBailout (worklist s) obj\<rparr>
                            else if IsGrey (marking_bitmap s) obj
                                 then s\<lparr>worklist := fst (Push (worklist s) obj)\<rparr>
                                 else PushBlack s obj)"
  define start where "start = max kStartOffset (progress_bar s (chunk_of h obj))"
  define sz where "sz = SizeFromMap h obj"
  define e where "e = min sz (start + kProgressBarScanningChunk)"
  obtain s2 start' where res: "VisitFixedArray_loop h s1 obj sz start e = (s2, start')"
    by (cases "VisitFixedArray_loop h s1 obj sz start e")
  have v1: "only_visitor_changed s s1"
    by (simp add: s1_def only_visitor_changed_update PushBlack_visitor)
  have v2: "only_visitor_changed s1 s2"
    using VisitFixedArray_loop_visitor [of s1 h obj sz start e] res by simp
  have v12: "only_visitor_changed s s2" by (rule only_visitor_changed_trans [OF v1 v2])
  define s3 where "s3 = s2\<lparr>progress_bar := (progress_bar s2)(chunk_of h obj := start')\<rparr>"
  have v3: "only_visitor_changed s s3"
    unfolding s3_def by (rule only_visitor_changed_trans [OF v12 only_visitor_changed_update(4)])
  have v4: "only_visitor_changed s (NotifyIncompleteScanOfObject s3 (sz - (start' - start)))"
    unfolding NotifyIncompleteScanOfObject_def
    by (rule only_visitor_changed_trans [OF v3 only_visitor_changed_update(5)])
  have "fst (VisitFixedArray fl h s obj) =
      (if HAS_PROGRESS_BAR h (chunk_of h obj) then
         (if start < sz then
            (if start' < sz then NotifyIncompleteScanOfObject s3 (sz - (start' - start)) else s3)
          else s)
       else VisitPointers h s obj kStartOffset sz)"
    using res
    by (simp add: VisitFixedArray_def Let_def start_def [symmetric] sz_def [symmetric]
        e_def [symmetric] s1_def [symmetric] s3_def [symmetric])
  then show ?thesis
    using v3 v4 VisitPointers_visitor [of s h obj kStartOffset sz] only_visitor_changed_refl [of s]
    by simp
qed

lemma VisitNativeContext_visitor: "only_visitor_changed s (fst (VisitNativeContext h s context))"
proof -
  define t1 where "t1 = (if \<not> IsUndefined h (normalized_map_cache h context)
                then (case normalized_map_cache h context of
                        HeapObject heap_obj \<Rightarrow>
                          s\<lparr>marking_bitmap := fst (WhiteToGrey (marking_bitmap s) heap_obj)\<rparr>
                      | Smi n \<Rightarrow> s)
                else s)"
  have "only_visitor_changed s t1"
    by (simp add: t1_def only_visitor_changed_update only_visitor_changed_refl split: object.splits)
  then have "only_visitor_changed s (IterateBody h t1 context)"
    by (rule only_visitor_changed_trans [OF _ IterateBody_visitor])
  then show ?thesis
    by (simp add: VisitNativeContext_def Let_def t1_def)
qed

lemma VisitObject_visitor: "only_visitor_changed s (VisitObject fl h s map_obj obj)"
proof -
  define s1 where "s1 = s\<lparr>marking_bitmap := fst (GreyToBlack (marking_bitmap s) obj)\<rparr>"
  define s2 where "s2 = fst (WhiteToGreyAndPush s1 map_obj)"
  have v2: "only_visitor_changed s s2"
    unfolding s2_def s1_def
    by (rule only_visitor_changed_trans [OF only_visitor_changed_update(1) WhiteToGreyAndPush_visitor])
  have "only_visitor_changed s2 (fst (Visit fl h s2 map_obj obj))"
    by (cases "visitor_id h map_obj")
       (simp_all add: Visit_def VisitFixedArray_visitor VisitNativeContext_visitor IterateBody_visitor)
  then have "only_visitor_changed s (fst (Visit fl h s2 map_obj obj))"
    by (rule only_visitor_changed_trans [OF v2])
  then show ?thesis by (simp add: VisitObject_def Let_def s1_def s2_def)
qed

lemma ProcessMarkingWorklist_loop_visitor:
  "ProcessMarkingWorklist_loop fl h btp c s bp = Some y \<Longrightarrow> only_visitor_changed s (fst y)"
proof (induction rule: ProcessMarkingWorklist_loop.raw_induct [rotated 1, consumes 1, case_names step])
  case (step loop fl h btp c s bp y)
  show ?case
  proof (cases "bp < btp \<or> c = FORCE_COMPLETION")
    case False
    then have "y = (s, bp)" using step.hyps by simp
    then show ?thesis by (simp add: only_visitor_changed_refl)
  next
    case go: True
    obtain r wl where pop: "Pop (worklist s) = (r, wl)" by (cases "Pop (worklist s)")
    show ?thesis
    proof (cases r)
      case None
      then have "y = (s, bp)" using step.hyps go pop by simp
      then show ?thesis by (simp add: only_visitor_changed_refl)
    next
      case (Some obj)
      show ?thesis
      proof (cases "IsFiller h obj")
        case True
        then have "loop fl h btp c (s\<lparr>worklist := wl\<rparr>) bp = Some y"
          using step.hyps go pop Some by simp
        from step.IH [OF this] show ?thesis
          by (rule only_visitor_changed_trans [OF only_visitor_changed_update(2)])
      next
        case False
        define s1 where "s1 = s\<lparr>worklist := wl, unscanned_bytes_of_large_object := 0\<rparr>"
        define s2 where "s2 = VisitObject fl h s1 (object_map h obj) obj"
        have "loop fl h btp c s2
                (bp + SizeFromMap h obj - unscanned_bytes_of_large_object s2) = Some y"
          using step.hyps go pop Some False by (simp add: s1_def s2_def)
        from step.IH [OF this] have v: "only_visitor_changed s2 (fst y)" .
        have "only_visitor_changed s s1"
          by (simp add: s1_def only_visitor_changed_def)
        then have "only_visitor_changed s s2"
          unfolding s2_def by (rule only_visitor_changed_trans [OF _ VisitObject_visitor])
        then show ?thesis by (rule only_visitor_changed_trans [OF _ v])
      qed
    qed
  qed
qed

lemma potential_cong:
  assumes "worklist t = worklist s" and "marking_bitmap t = marking_bitmap s"
      and "progress_bar t = progress_bar s"
  shows "marking_potential h B t = marking_potential h B s"
    and "worklist_bounded B t = worklist_bounded B s"
  unfolding marking_potential_def queue_potential_def white_count_def
      remaining_scan_def worklist_bounded_def entries_def assms
  by simp_all

lemma Step_tail_frame:
  fixes s3 :: IncrementalMarking and fl :: Flags and h :: Heap
    and completion :: ForceCompletionAction and action :: CompletionAction
  defines "s4 \<equiv> (if IsEmpty (worklist s3) then
                             (if ShouldFinalizeIncrementalMarking h then
                                (if completion = FORCE_COMPLETION \<or>
                                    IsIdleMarkingDelayCounterLimitReached fl s3
                                 then (if \<not> finalize_marking_completed s3
                                       then FinalizeMarking s3 action
                                       else MarkingComplete s3 action)
                                 else IncrementIdleMarkingDelayCounter s3)
                              else s3)
                           else s3)"
  shows "worklist s4 = worklist s3" and "marking_bitmap s4 = marking_bitmap s3"
    and "progress_bar s4 = progress_bar s3"
    and "bytes_marked_ahead_of_schedule s4 = bytes_marked_ahead_of_schedule s3"
    and "\<not> IsEmpty (worklist s3) \<longrightarrow> state s4 = state s3"
  by (simp_all add: s4_def FinalizeMarking_def MarkingComplete_def
      IncrementIdleMarkingDelayCounter_def Let_def)

lemma Step_in_marking:
  assumes hb: "heap_bounded h B" and wb: "worklist_bounded B s" and st: "state s = MARKING"
  shows "\<exists>s' n. Step fl h s btp action completion origin = Some (s', n) \<and>
     worklist_bounded B s' \<and>
     marking_potential h B s' \<le> marking_potential h B s \<and>
     (0 < sint btp \<and> \<not> IsEmpty (worklist s) \<longrightarrow>
        marking_potential h B s' < marking_potential h B s) \<and>
     (\<not> IsEmpty (worklist s') \<longrightarrow> state s' = MARKING)"
proof -
  from ProcessMarkingWorklist_loop_terminates [OF hb wb, of fl "sint btp" DO_NOT_FORCE_COMPLETION 0]
  obtain s2 n where
    r: "ProcessMarkingWorklist_loop fl h (sint btp) DO_NOT_FORCE_COMPLETION s 0 = Some (s2, n)"
    and wb2: "worklist_bounded B s2"
    and le: "marking_potential h B s2 \<le> marking_potential h B s"
    and lt: "0 < sint btp \<and> \<not> IsEmpty (worklist s) \<longrightarrow>
             marking_potential h B s2 < marking_potential h B s"
    by auto
  have st2: "state s2 = MARKING"
    using only_visitor_changed_fields(2) [OF ProcessMarkingWorklist_loop_visitor [OF r]] st by simp
  define s3 where "s3 = (if origin = kTask
                           then s2\<lparr>bytes_marked_ahead_of_schedule :=
                                     bytes_marked_ahead_of_schedule s2 + word_of_int n\<rparr>
                           else s2)"
  define s4 where "s4 = (if IsEmpty (worklist s3) then
                             (if ShouldFinalizeIncrementalMarking h then
                                (if completion = FORCE_COMPLETION \<or>
                                    IsIdleMarkingDelayCounterLimitReached fl s3
                                 then (if \<not> finalize_marking_completed s3
                                       then FinalizeMarking s3 action
                                       else MarkingComplete s3 action)
                                 else IncrementIdleMarkingDelayCounter s3)
                              else s3)
                           else s3)"
  have step: "Step fl h s btp action completion origin = Some (s4, word_of_int n)"
    using st r by (simp add: Step_def ProcessMarkingWorklist_def Let_def s3_def s4_def)
  have f3: "worklist s3 = worklist s2" "marking_bitmap s3 = marking_bitmap s2"
    "progress_bar s3 = progress_bar s2" "state s3 = state s2"
    by (simp_all add: s3_def)
  have f4: "worklist s4 = worklist s3" "marking_bitmap s4 = marking_bitmap s3"
    "progress_bar s4 = progress_bar s3" "\<not> IsEmpty (worklist s3) \<longrightarrow> state s4 = state s3"
    unfolding s4_def by (rule Step_tail_frame)+
  have p: "marking_potential h B s4 = marking_potential h B s2"
    "worklist_bounded B s4 = worklist_bounded B s2"
    using potential_cong(1) [where t = s4 and s = s2 and h = h and B = B]
      potential_cong(2) [where t = s4 and s = s2 and B = B] f3 f4 by simp_all
  show ?thesis
    using step wb2 le lt p f3 f4 st2 by simp
qed

text \<open>
  Claim C7. Take a marker in the MARKING state, a heap all of whose references and maps
  lie below a bound \<open>B\<close> and a worklist whose entries lie below \<open>B\<close>. If Step is called
  again and again, with nothing in between and with a budget that ProcessMarkingWorklist
  reads as a positive \<open>intptr_t\<close>, every call returns and the worklist is empty after at
  most \<open>marking_potential h B s\<close> calls.
\<close>

theorem Step_drains_worklist:
  assumes "state s = MARKING" and "heap_bounded h B" and "worklist_bounded B s"
      and "0 < sint bytes_to_process"
  shows "\<exists>n s'. n \<le> marking_potential h B s \<and>
           Step_repeatedly n fl h bytes_to_process action completion step_origin s = Some s' \<and>
           IsEmpty (worklist s')"
  using assms(1,3)
proof (induction "marking_potential h B s" arbitrary: s rule: less_induct)
  case less
  show ?case
  proof (cases "IsEmpty (worklist s)")
    case True
    then have "Step_repeatedly 0 fl h bytes_to_process action completion step_origin s = Some s \<and>
               IsEmpty (worklist s)" by simp
    then show ?thesis by blast
  next
    case False
    from Step_in_marking [OF assms(2) less.prems(2) less.prems(1), of fl bytes_to_process action
        completion step_origin]
    obtain s1 k where
      st: "Step fl h s bytes_to_process action completion step_origin = Some (s1, k)"
      and wb: "worklist_bounded B s1"
      and lt: "marking_potential h B s1 < marking_potential h B s"
      and mk: "\<not> IsEmpty (worklist s1) \<longrightarrow> state s1 = MARKING"
      using False assms(4) by auto
    show ?thesis
    proof (cases "IsEmpty (worklist s1)")
      case True
      have "Step_repeatedly (Suc 0) fl h bytes_to_process action completion step_origin s = Some s1"
        using st by simp
      moreover have "Suc 0 \<le> marking_potential h B s" using lt by simp
      ultimately show ?thesis using True by blast
    next
      case ne: False
      then have "state s1 = MARKING" using mk by simp
      from less.hyps [OF lt this wb] obtain n s' where
        n: "n \<le> marking_potential h B s1"
        and r: "Step_repeatedly n fl h bytes_to_process action completion step_origin s1 = Some s'"
        and e: "IsEmpty (worklist s')"
        by blast
      have "Step_repeatedly (Suc n) fl h bytes_to_process action completion step_origin s = Some s'"
        using st r by simp
      moreover have "Suc n \<le> marking_potential h B s" using n lt by simp
      ultimately show ?thesis using e by blast
    qed
  qed
qed

text \<open>
  The theorem at the large array of 100000 bytes and a second Grey object, with a budget
  of 40000 bytes.
\<close>

theorem Step_drains_worklist_witness:
  "state draining_state = MARKING \<and> heap_bounded large_array_heap 6000 \<and>
   worklist_bounded 6000 draining_state \<and> 0 < sint (40000 :: 64 word) \<and>
   (\<exists>n s'. n \<le> marking_potential large_array_heap 6000 draining_state \<and>
      Step_repeatedly n example_flags large_array_heap 40000 NO_GC_VIA_STACK_GUARD
        DO_NOT_FORCE_COMPLETION kV8 draining_state = Some s' \<and>
      IsEmpty (worklist s'))"
proof -
  have a: "state draining_state = MARKING"
    by (simp add: draining_state_def example_state_def)
  have b: "heap_bounded large_array_heap 6000"
    by (simp add: heap_bounded_def large_array_heap_def example_heap_def object_map_def)
  have c: "worklist_bounded 6000 draining_state"
    by (simp add: worklist_bounded_def entries_def draining_state_def example_state_def)
  have d: "0 < sint (40000 :: 64 word)" by simp
  from Step_drains_worklist [OF a b c d] a b c d show ?thesis by blast
qed

section \<open>The credit of the background tasks\<close>

lemma foldl_credit:
  assumes "\<And>t x. bytes_marked_ahead_of_schedule (f t x) = bytes_marked_ahead_of_schedule t"
  shows "bytes_marked_ahead_of_schedule (foldl f s xs) = bytes_marked_ahead_of_schedule s"
  by (rule foldl_preserves
        [where P = "\<lambda>t. bytes_marked_ahead_of_schedule t = bytes_marked_ahead_of_schedule s"])
     (simp_all add: assms)

lemma SetPageFlags_credit:
  "bytes_marked_ahead_of_schedule (SetOldSpacePageFlags s p m c) = bytes_marked_ahead_of_schedule s"
  "bytes_marked_ahead_of_schedule (SetNewSpacePageFlags s p m) = bytes_marked_ahead_of_schedule s"
  by (simp_all add: SetOldSpacePageFlags_def SetNewSpacePageFlags_def Let_def)

lemma ActivateIncrementalWriteBarrier_credit:
  "bytes_marked_ahead_of_schedule (ActivateIncrementalWriteBarrier h s) =
   bytes_marked_ahead_of_schedule s"
  by (simp add: ActivateIncrementalWriteBarrier_def Let_def foldl_credit SetPageFlags_credit)

lemma StartMarking_credit:
  "bytes_marked_ahead_of_schedule (StartMarking fl h s) = bytes_marked_ahead_of_schedule s"
  by (simp add: StartMarking_def Let_def only_marking_changed_fields(6) [OF MarkRoots_only_marking]
      StartBlackAllocation_def ActivateIncrementalWriteBarrier_credit
      PatchIncrementalMarkingRecordWriteStubs_def)

lemma FinalizeSweeping_credit:
  "bytes_marked_ahead_of_schedule (FinalizeSweeping fl h s) = bytes_marked_ahead_of_schedule s"
  by (simp add: FinalizeSweeping_def Let_def StartMarking_credit)

lemma Step_credit:
  assumes "Step fl h s btp action completion origin = Some (s', n)"
  shows "bytes_marked_ahead_of_schedule s' =
         bytes_marked_ahead_of_schedule s + (if origin = kTask then n else 0)"
proof -
  define s1 where "s1 = (if state s = SWEEPING then FinalizeSweeping fl h s else s)"
  have c1: "bytes_marked_ahead_of_schedule s1 = bytes_marked_ahead_of_schedule s"
    by (simp add: s1_def FinalizeSweeping_credit)
  show ?thesis
  proof (cases "state s1 = MARKING")
    case False
    then have "Step fl h s btp action completion origin = Some (s1, 0)"
      by (simp add: Step_def Let_def s1_def)
    then show ?thesis using assms c1 by simp
  next
    case True
    show ?thesis
    proof (cases "ProcessMarkingWorklist_loop fl h (sint btp) DO_NOT_FORCE_COMPLETION s1 0")
      case None
      then have "Step fl h s btp action completion origin = None"
        using True by (simp add: Step_def Let_def s1_def ProcessMarkingWorklist_def)
      then show ?thesis using assms by simp
    next
      case (Some y)
      obtain s2 k where y: "y = (s2, k)" by (cases y)
      have c2: "bytes_marked_ahead_of_schedule s2 = bytes_marked_ahead_of_schedule s1"
        using only_visitor_changed_fields(1) [OF ProcessMarkingWorklist_loop_visitor [OF Some]] y
        by simp
      define s3 where "s3 = (if origin = kTask
                           then s2\<lparr>bytes_marked_ahead_of_schedule :=
                                     bytes_marked_ahead_of_schedule s2 + word_of_int k\<rparr>
                           else s2)"
      define s4 where "s4 = (if IsEmpty (worklist s3) then
                             (if ShouldFinalizeIncrementalMarking h then
                                (if completion = FORCE_COMPLETION \<or>
                                    IsIdleMarkingDelayCounterLimitReached fl s3
                                 then (if \<not> finalize_marking_completed s3
                                       then FinalizeMarking s3 action
                                       else MarkingComplete s3 action)
                                 else IncrementIdleMarkingDelayCounter s3)
                              else s3)
                           else s3)"
      have step: "Step fl h s btp action completion origin = Some (s4, word_of_int k)"
        using True Some y
        by (simp add: Step_def ProcessMarkingWorklist_def Let_def s1_def s3_def s4_def)
      have c4: "bytes_marked_ahead_of_schedule s4 = bytes_marked_ahead_of_schedule s3"
        unfolding s4_def by (rule Step_tail_frame)
      have c3: "bytes_marked_ahead_of_schedule s3 =
                bytes_marked_ahead_of_schedule s2 + (if origin = kTask then word_of_int k else 0)"
        by (simp add: s3_def)
      show ?thesis using step assms c1 c2 c3 c4 by simp
    qed
  qed
qed

lemma Advance_credit:
  assumes "AdvanceIncrementalMarkingOnAllocation fl h s = Some s'"
  shows "if consumes_credit fl h s
         then bytes_marked_ahead_of_schedule s' =
                bytes_marked_ahead_of_schedule s - step_size_on_allocation h s \<and>
              worklist s' = worklist s \<and> marking_bitmap s' = marking_bitmap s
         else bytes_marked_ahead_of_schedule s' = bytes_marked_ahead_of_schedule s"
proof (cases "consumes_credit fl h s")
  case True
  then show ?thesis using assms
    by (auto simp: consumes_credit_def step_size_on_allocation_def
        AdvanceIncrementalMarkingOnAllocation_def StepSizeToKeepUpWithAllocations_def Let_def
        split: if_splits)
next
  case False
  show ?thesis
  proof (cases "\<not> gc_state_is_NOT_IN_GC h \<or> \<not> FLAG_incremental_marking fl \<or>
         (state s \<noteq> SWEEPING \<and> state s \<noteq> MARKING) \<or> always_allocate h")
    case True
    then have "AdvanceIncrementalMarkingOnAllocation fl h s = Some s"
      by (simp add: AdvanceIncrementalMarkingOnAllocation_def)
    then show ?thesis using assms False by simp
  next
    case guard: False
    define s1 where "s1 = fst (StepSizeToKeepUpWithAllocations h s)"
    define k where "k = snd (StepSizeToKeepUpWithAllocations h s)"
    define b where "b = k + StepSizeToMakeProgress_result h"
    have keep: "StepSizeToKeepUpWithAllocations h s = (s1, k)"
      by (simp add: s1_def k_def)
    have c1: "bytes_marked_ahead_of_schedule s1 = bytes_marked_ahead_of_schedule s"
      by (simp add: s1_def StepSizeToKeepUpWithAllocations_def Let_def)
    show ?thesis
    proof (cases "b \<ge> kAllocatedThreshold fl")
      case False
      then have "AdvanceIncrementalMarkingOnAllocation fl h s = Some s1"
        using guard
        by (auto simp: AdvanceIncrementalMarkingOnAllocation_def keep Let_def b_def)
      then show ?thesis using assms \<open>\<not> consumes_credit fl h s\<close> c1 by simp
    next
      case True
      then have nc: "\<not> bytes_marked_ahead_of_schedule s1 \<ge> min b (max_step_size h)"
        using \<open>\<not> consumes_credit fl h s\<close> guard c1
        by (auto simp: consumes_credit_def step_size_on_allocation_def b_def k_def)
      have e: "AdvanceIncrementalMarkingOnAllocation fl h s =
          (case Step fl h s1 (min b (max_step_size h)) GC_VIA_STACK_GUARD FORCE_COMPLETION kV8 of
             None \<Rightarrow> None
           | Some (s2, bytes_processed) \<Rightarrow>
               Some (s2\<lparr>bytes_allocated :=
                          bytes_allocated s2 - min (bytes_allocated s2) bytes_processed\<rparr>))"
        using guard True nc
        by (auto simp: AdvanceIncrementalMarkingOnAllocation_def keep Let_def b_def)
      from assms e obtain s2 n where
        st: "Step fl h s1 (min b (max_step_size h)) GC_VIA_STACK_GUARD FORCE_COMPLETION kV8 =
             Some (s2, n)"
        and s': "s' = s2\<lparr>bytes_allocated := bytes_allocated s2 - min (bytes_allocated s2) n\<rparr>"
        by (auto split: option.splits)
      have "bytes_marked_ahead_of_schedule s2 = bytes_marked_ahead_of_schedule s1"
        using Step_credit [OF st] by simp
      then show ?thesis using s' c1 \<open>\<not> consumes_credit fl h s\<close> by simp
    qed
  qed
qed

lemma Start_credit: "bytes_marked_ahead_of_schedule (Start fl h s) = 0"
proof -
  have "\<And>t x. bytes_marked_ahead_of_schedule (AddAllocationObserver t x) =
              bytes_marked_ahead_of_schedule t"
    by (simp add: AddAllocationObserver_def)
  then show ?thesis
    by (simp add: Start_def Let_def foldl_credit StartMarking_credit)
qed

lemma Stop_credit: "bytes_marked_ahead_of_schedule (Stop h s) = bytes_marked_ahead_of_schedule s"
  by (simp add: Stop_def Let_def RemoveAllocationObserver_all DeactivateIncrementalWriteBarrier_flags
      PatchIncrementalMarkingRecordWriteStubs_def FinishBlackAllocation_def)

lemma FinalizeIncrementally_credit:
  "bytes_marked_ahead_of_schedule (FinalizeIncrementally fl h s) = bytes_marked_ahead_of_schedule s"
  by (simp add: FinalizeIncrementally_def Let_def RetainMaps_fields(5)
      only_marking_changed_fields(6) [OF MarkRoots_only_marking] StartBlackAllocation_def)

lemma RecordWriteSlow_credit:
  "bytes_marked_ahead_of_schedule (RecordWriteSlow fl s obj slot_ptr val) =
   bytes_marked_ahead_of_schedule s"
  using only_marking_changed_fields(6) [OF WhiteToGreyAndPush_only_marking [of s val]]
  by (auto simp: RecordWriteSlow_def BaseRecordWrite_def Let_def RecordSlot_def
      RestartIfNotMarking_def split: prod.splits option.splits bool.splits if_splits)

lemma NotifyLeftTrimming_credit:
  "bytes_marked_ahead_of_schedule (NotifyLeftTrimming fl s from_obj to_obj) =
   bytes_marked_ahead_of_schedule s"
  by (simp add: NotifyLeftTrimming_def Let_def RestartIfNotMarking_def split: prod.splits)

lemma UpdateMarkingWorklistAfterScavenge_credit:
  "bytes_marked_ahead_of_schedule (UpdateMarkingWorklistAfterScavenge h s) =
   bytes_marked_ahead_of_schedule s"
  by (simp add: UpdateMarkingWorklistAfterScavenge_def Let_def)

text \<open>
  Claim C10, amended. A call of Step that returns adds the bytes it processed to
  \<open>bytes_marked_ahead_of_schedule\<close> when its origin is a task, and leaves the counter as it
  was otherwise. AdvanceIncrementalMarkingOnAllocation lowers the counter by its step
  size, and leaves the worklist and the mark bits alone, exactly when it is not stopped
  by its guard, the step size before capping reaches the allocation threshold and the
  counter is at least the capped step size; in every other case it leaves the counter
  as it was. Start resets the counter to zero. Stop, Epilogue, FinalizeIncrementally,
  UpdateMarkingWorklistAfterScavenge, RecordWriteSlow and NotifyLeftTrimming leave it
  as it was.
\<close>

theorem bytes_marked_ahead_of_schedule_updates:
  "(Step fl h s bytes_to_process action completion step_origin = Some (s', bytes_processed) \<longrightarrow>
      bytes_marked_ahead_of_schedule s' =
        bytes_marked_ahead_of_schedule s +
          (if step_origin = kTask then bytes_processed else 0)) \<and>
   (AdvanceIncrementalMarkingOnAllocation fl h s = Some s'' \<longrightarrow>
      (if consumes_credit fl h s
       then bytes_marked_ahead_of_schedule s'' =
              bytes_marked_ahead_of_schedule s - step_size_on_allocation h s \<and>
            worklist s'' = worklist s \<and> marking_bitmap s'' = marking_bitmap s
       else bytes_marked_ahead_of_schedule s'' = bytes_marked_ahead_of_schedule s)) \<and>
   bytes_marked_ahead_of_schedule (Start fl h s) = 0 \<and>
   bytes_marked_ahead_of_schedule (Stop h s) = bytes_marked_ahead_of_schedule s \<and>
   bytes_marked_ahead_of_schedule (Epilogue s) = bytes_marked_ahead_of_schedule s \<and>
   bytes_marked_ahead_of_schedule (FinalizeIncrementally fl h s) =
     bytes_marked_ahead_of_schedule s \<and>
   bytes_marked_ahead_of_schedule (UpdateMarkingWorklistAfterScavenge h s) =
     bytes_marked_ahead_of_schedule s \<and>
   bytes_marked_ahead_of_schedule (RecordWriteSlow fl s obj slot_ptr val) =
     bytes_marked_ahead_of_schedule s \<and>
   bytes_marked_ahead_of_schedule (NotifyLeftTrimming fl s from_obj to_obj) =
     bytes_marked_ahead_of_schedule s"
  using Step_credit [of fl h s bytes_to_process action completion step_origin s' bytes_processed]
    Advance_credit [of fl h s s''] Start_credit [of fl h s] Stop_credit [of h s]
    FinalizeIncrementally_credit [of fl h s] UpdateMarkingWorklistAfterScavenge_credit [of h s]
    RecordWriteSlow_credit [of fl s obj slot_ptr val]
    NotifyLeftTrimming_credit [of fl s from_obj to_obj]
  by (simp add: Epilogue_def)

text \<open>
  The theorem at a marker that is 100000 bytes ahead: a step from a task that processes
  64 bytes raises the credit to 100064, and an allocation step of 70000 bytes lowers it
  to 30000 without touching the worklist.
\<close>

theorem bytes_marked_ahead_of_schedule_updates_witness:
  "(\<exists>s'. Step example_flags example_heap credited_state 65536 NO_GC_VIA_STACK_GUARD
            DO_NOT_FORCE_COMPLETION kTask = Some (s', 64) \<and>
          bytes_marked_ahead_of_schedule credited_state = 100000 \<and>
          bytes_marked_ahead_of_schedule s' = 100064) \<and>
   (\<exists>s''. AdvanceIncrementalMarkingOnAllocation example_flags example_heap credited_state =
             Some s'' \<and>
           consumes_credit example_flags example_heap credited_state \<and>
           step_size_on_allocation example_heap credited_state = 70000 \<and>
           bytes_marked_ahead_of_schedule s'' = 30000 \<and>
           worklist s'' = worklist credited_state)"
proof -
  have "\<exists>s'. Step example_flags example_heap credited_state 65536 NO_GC_VIA_STACK_GUARD
            DO_NOT_FORCE_COMPLETION kTask = Some (s', 64)"
    by (simp add: Step_def ProcessMarkingWorklist_def ProcessMarkingWorklist_loop.simps
        credited_state_def example_state_def
        example_heap_def example_flags_def Pop_def VisitObject_def Visit_def WhiteToGreyAndPush_def
        WhiteToGrey_def GreyToBlack_def IsWhite_def IsGrey_def IsBlack_def object_map_def
        IterateBody_def Push_def IsFull_def IsEmpty_def Let_def
        IsIdleMarkingDelayCounterLimitReached_def IncrementIdleMarkingDelayCounter_def)
  then obtain s' where st: "Step example_flags example_heap credited_state 65536
      NO_GC_VIA_STACK_GUARD DO_NOT_FORCE_COMPLETION kTask = Some (s', 64)" by blast
  have c: "bytes_marked_ahead_of_schedule credited_state = 100000"
    by (simp add: credited_state_def example_state_def)
  have sz: "step_size_on_allocation example_heap credited_state = 70000"
    by (simp add: step_size_on_allocation_def StepSizeToKeepUpWithAllocations_def Let_def
        credited_state_def example_state_def example_heap_def)
  have cc: "consumes_credit example_flags example_heap credited_state"
    unfolding consumes_credit_def sz
    by (simp add: StepSizeToKeepUpWithAllocations_def Let_def
        credited_state_def example_state_def example_heap_def example_flags_def)
  have "\<exists>s''. AdvanceIncrementalMarkingOnAllocation example_flags example_heap credited_state =
             Some s''"
    by (simp add: AdvanceIncrementalMarkingOnAllocation_def StepSizeToKeepUpWithAllocations_def
        Let_def credited_state_def example_state_def example_heap_def example_flags_def)
  then obtain s'' where
    adv: "AdvanceIncrementalMarkingOnAllocation example_flags example_heap credited_state =
          Some s''" by blast
  from bytes_marked_ahead_of_schedule_updates [of example_flags example_heap credited_state
      65536 NO_GC_VIA_STACK_GUARD DO_NOT_FORCE_COMPLETION kTask s' 64 s'']
  have "bytes_marked_ahead_of_schedule s' = 100064"
    and "bytes_marked_ahead_of_schedule s'' = 30000 \<and> worklist s'' = worklist credited_state"
    using st adv cc sz c by simp_all
  then show ?thesis using st adv cc sz c by blast
qed

text \<open>
  Start lowers the counter too: line 493 resets it to zero, so a credit left over from
  the previous cycle is lost when the next cycle starts.
\<close>

theorem Start_resets_credit_counterexample:
  "IsStopped stopped_state \<and> bytes_marked_ahead_of_schedule stopped_state = 100000 \<and>
   bytes_marked_ahead_of_schedule (Start example_flags example_heap stopped_state) = 0"
  by (simp add: Start_credit IsStopped_def stopped_state_def example_state_def)

section \<open>Stop from a reachable state\<close>

text \<open>
  SWEEPING is entered only by Start, from STOPPED, and the stubs, the page flags,
  \<open>is_compacting\<close> and \<open>black_allocation\<close> are switched on only after the state has
  become MARKING. So every reachable marker in STOPPED or SWEEPING has the barrier at
  rest.
\<close>

lemma keeps_barrier_refl: "keeps_barrier s s"
  by (simp add: keeps_barrier_def)

lemma keeps_barrier_invariant:
  "inactive_invariant pages s \<Longrightarrow> keeps_barrier s s' \<Longrightarrow> inactive_invariant pages s'"
  by (auto simp: inactive_invariant_def keeps_barrier_def barrier_idle_def)

lemma keeps_barrier_trans:
  "keeps_barrier s t \<Longrightarrow> keeps_barrier t u \<Longrightarrow> state t = state s \<Longrightarrow> keeps_barrier s u"
  by (auto simp: keeps_barrier_def)

lemma foldl_state:
  assumes "\<And>t x. state (f t x) = state t"
  shows "state (foldl f s xs) = state s"
  by (rule foldl_preserves [where P = "\<lambda>t. state t = state s"]) (simp_all add: assms)

lemma SetPageFlags_state:
  "state (SetOldSpacePageFlags s p m c) = state s"
  "state (SetNewSpacePageFlags s p m) = state s"
  by (simp_all add: SetOldSpacePageFlags_def SetNewSpacePageFlags_def Let_def)

lemma StartMarking_state:
  "StartMarking fl h s = s \<or> state (StartMarking fl h s) = MARKING"
proof (cases "serializer_enabled h")
  case True
  then show ?thesis by (simp add: StartMarking_def)
next
  case False
  then have "state (StartMarking fl h s) = MARKING"
    by (simp add: StartMarking_def Let_def only_marking_changed_fields(8) [OF MarkRoots_only_marking]
        StartBlackAllocation_def ActivateIncrementalWriteBarrier_def foldl_state SetPageFlags_state
        PatchIncrementalMarkingRecordWriteStubs_def)
  then show ?thesis by simp
qed

lemma AddAllocationObserver_keeps:
  "keeps_barrier s t \<Longrightarrow> keeps_barrier s (foldl AddAllocationObserver t xs)"
  by (rule foldl_preserves [where P = "keeps_barrier s"])
     (auto simp: keeps_barrier_def AddAllocationObserver_def)

lemma Start_invariant:
  assumes "inactive_invariant pages s" and "state s = STOPPED"
  shows "inactive_invariant pages (Start fl h s)"
proof -
  define s1 where "s1 = s\<lparr>initial_old_generation_size := PromotedSpaceSizeOfObjects h,
                 old_generation_allocation_counter := OldGenerationAllocationCounter h,
                 bytes_allocated := 0,
                 bytes_marked_ahead_of_schedule := 0,
                 should_hurry := False,
                 was_activated := True\<rparr>"
  define s2 where "s2 = (if \<not> sweeping_in_progress h then StartMarking fl h s1
                else s1\<lparr>state := SWEEPING\<rparr>)"
  have i1: "inactive_invariant pages s1"
    using assms by (simp add: inactive_invariant_def barrier_idle_def s1_def)
  have i1': "inactive_invariant pages (s1\<lparr>state := SWEEPING\<rparr>)"
    using assms by (simp add: inactive_invariant_def barrier_idle_def s1_def)
  have i2: "inactive_invariant pages s2"
  proof (cases "sweeping_in_progress h")
    case True
    then show ?thesis using i1' by (simp add: s2_def)
  next
    case False
    then have e: "s2 = StartMarking fl h s1" by (simp add: s2_def)
    from StartMarking_state [of fl h s1] show ?thesis
    proof
      assume "StartMarking fl h s1 = s1" then show ?thesis using i1 e by simp
    next
      assume "state (StartMarking fl h s1) = MARKING"
      then show ?thesis using e by (simp add: inactive_invariant_def)
    qed
  qed
  have "keeps_barrier s2 (foldl AddAllocationObserver s2 all_spaces)"
    by (rule AddAllocationObserver_keeps [OF keeps_barrier_refl])
  moreover have "Start fl h s = foldl AddAllocationObserver s2 all_spaces"
    by (simp add: Start_def Let_def s1_def s2_def)
  ultimately show ?thesis using keeps_barrier_invariant [OF i2] by simp
qed

lemma Stop_invariant:
  assumes "inactive_invariant (space_pages h) s" and "pages_disjoint (space_pages h)"
  shows "inactive_invariant (space_pages h) (Stop h s)"
proof (cases "IsStopped s")
  case True
  then show ?thesis using assms by (simp add: Stop_def)
next
  case False
  show ?thesis
  proof (cases "IsMarking s")
    case True
    then show ?thesis
      using False assms(2)
      by (auto simp: Stop_def IsStopped_def IsMarking_def Let_def RemoveAllocationObserver_all
        DeactivateIncrementalWriteBarrier_flags PatchIncrementalMarkingRecordWriteStubs_def
        FinishBlackAllocation_def inactive_invariant_def barrier_idle_def pages_disjoint_def)
  next
    case nm: False
    then have "state s = SWEEPING"
      using False by (cases "state s") (simp_all add: IsStopped_def IsMarking_def)
    then show ?thesis
      using False nm assms(1)
      by (auto simp: Stop_def IsStopped_def IsMarking_def Let_def RemoveAllocationObserver_all
        FinishBlackAllocation_def inactive_invariant_def barrier_idle_def)
  qed
qed

lemma Step_keeps:
  assumes "Step fl h s btp action completion origin = Some (s', n)"
  shows "keeps_barrier s s'"
proof -
  define s1 where "s1 = (if state s = SWEEPING then FinalizeSweeping fl h s else s)"
  have c1: "s1 = s \<or> state s1 = MARKING"
    using StartMarking_state [of fl h s] by (auto simp: s1_def FinalizeSweeping_def Let_def)
  show ?thesis
  proof (cases "state s1 = MARKING")
    case False
    then have "Step fl h s btp action completion origin = Some (s1, 0)"
      by (simp add: Step_def Let_def s1_def)
    then show ?thesis using assms c1 False by (simp add: keeps_barrier_refl)
  next
    case True
    show ?thesis
    proof (cases "ProcessMarkingWorklist_loop fl h (sint btp) DO_NOT_FORCE_COMPLETION s1 0")
      case None
      then have "Step fl h s btp action completion origin = None"
        using True by (simp add: Step_def Let_def s1_def ProcessMarkingWorklist_def)
      then show ?thesis using assms by simp
    next
      case (Some y)
      obtain s2 k where y: "y = (s2, k)" by (cases y)
      have c2: "state s2 = MARKING"
        using only_visitor_changed_fields(2) [OF ProcessMarkingWorklist_loop_visitor [OF Some]] y True
        by simp
      define s3 where "s3 = (if origin = kTask
                           then s2\<lparr>bytes_marked_ahead_of_schedule :=
                                     bytes_marked_ahead_of_schedule s2 + word_of_int k\<rparr>
                           else s2)"
      define s4 where "s4 = (if IsEmpty (worklist s3) then
                             (if ShouldFinalizeIncrementalMarking h then
                                (if completion = FORCE_COMPLETION \<or>
                                    IsIdleMarkingDelayCounterLimitReached fl s3
                                 then (if \<not> finalize_marking_completed s3
                                       then FinalizeMarking s3 action
                                       else MarkingComplete s3 action)
                                 else IncrementIdleMarkingDelayCounter s3)
                              else s3)
                           else s3)"
      have step: "Step fl h s btp action completion origin = Some (s4, word_of_int k)"
        using True Some y
        by (simp add: Step_def ProcessMarkingWorklist_def Let_def s1_def s3_def s4_def)
      have "state s3 = MARKING" using c2 by (simp add: s3_def)
      then have "state s4 = MARKING \<or> state s4 = COMPLETE"
        by (simp add: s4_def FinalizeMarking_def MarkingComplete_def
            IncrementIdleMarkingDelayCounter_def Let_def)
      then show ?thesis using step assms by (auto simp: keeps_barrier_def)
    qed
  qed
qed

lemma Advance_keeps:
  assumes "AdvanceIncrementalMarkingOnAllocation fl h s = Some s'"
  shows "keeps_barrier s s'"
proof (cases "\<not> gc_state_is_NOT_IN_GC h \<or> \<not> FLAG_incremental_marking fl \<or>
         (state s \<noteq> SWEEPING \<and> state s \<noteq> MARKING) \<or> always_allocate h")
  case True
  then have "AdvanceIncrementalMarkingOnAllocation fl h s = Some s"
    by (simp add: AdvanceIncrementalMarkingOnAllocation_def)
  then show ?thesis using assms by (simp add: keeps_barrier_refl)
next
  case guard: False
  define s1 where "s1 = fst (StepSizeToKeepUpWithAllocations h s)"
  define k where "k = snd (StepSizeToKeepUpWithAllocations h s)"
  define b where "b = k + StepSizeToMakeProgress_result h"
  have keep: "StepSizeToKeepUpWithAllocations h s = (s1, k)"
    by (simp add: s1_def k_def)
  have k1: "keeps_barrier s s1" "state s1 = state s"
    by (simp_all add: s1_def StepSizeToKeepUpWithAllocations_def Let_def keeps_barrier_def)
  show ?thesis
  proof (cases "b \<ge> kAllocatedThreshold fl")
    case False
    then have "AdvanceIncrementalMarkingOnAllocation fl h s = Some s1"
      using guard
      by (auto simp: AdvanceIncrementalMarkingOnAllocation_def keep Let_def b_def)
    then show ?thesis using assms k1 by simp
  next
    case True
    show ?thesis
    proof (cases "bytes_marked_ahead_of_schedule s1 \<ge> min b (max_step_size h)")
      case c: True
      have "AdvanceIncrementalMarkingOnAllocation fl h s =
            Some (s1\<lparr>bytes_marked_ahead_of_schedule :=
                        bytes_marked_ahead_of_schedule s1 - min b (max_step_size h),
                      bytes_allocated :=
                        bytes_allocated s1 - min (bytes_allocated s1) (min b (max_step_size h))\<rparr>)"
        using guard True c
        by (auto simp: AdvanceIncrementalMarkingOnAllocation_def keep Let_def b_def)
      then show ?thesis using assms k1 by (auto simp: keeps_barrier_def)
    next
      case nc: False
      have e: "AdvanceIncrementalMarkingOnAllocation fl h s =
          (case Step fl h s1 (min b (max_step_size h)) GC_VIA_STACK_GUARD FORCE_COMPLETION kV8 of
             None \<Rightarrow> None
           | Some (s2, bytes_processed) \<Rightarrow>
               Some (s2\<lparr>bytes_allocated :=
                          bytes_allocated s2 - min (bytes_allocated s2) bytes_processed\<rparr>))"
        using guard True nc
        by (auto simp: AdvanceIncrementalMarkingOnAllocation_def keep Let_def b_def)
      from assms e obtain s2 n where
        st: "Step fl h s1 (min b (max_step_size h)) GC_VIA_STACK_GUARD FORCE_COMPLETION kV8 =
             Some (s2, n)"
        and s': "s' = s2\<lparr>bytes_allocated := bytes_allocated s2 - min (bytes_allocated s2) n\<rparr>"
        by (auto split: option.splits)
      have "keeps_barrier s1 s2" by (rule Step_keeps [OF st])
      then have "keeps_barrier s1 s'" using s' by (auto simp: keeps_barrier_def)
      then show ?thesis using keeps_barrier_trans [OF k1(1) _ k1(2)] by blast
    qed
  qed
qed

lemma FinalizeIncrementally_state:
  "state (FinalizeIncrementally fl h s) = state s"
proof -
  have l: "state (fst (RetainMaps_loop fl h d 0 (retained_maps t) t)) = state t" for d t
    by (rule only_marking_changed_fields(8) [OF RetainMaps_loop_only_marking])
  have r: "state (RetainMaps fl h t) = state t" for t
    by (simp add: RetainMaps_def Let_def split_beta l)
  show ?thesis
    by (simp add: FinalizeIncrementally_def Let_def r
        only_marking_changed_fields(8) [OF MarkRoots_only_marking] StartBlackAllocation_def)
qed

lemma RecordWriteSlow_keeps: "keeps_barrier s (RecordWriteSlow fl s obj slot_ptr val)"
  by (auto simp: keeps_barrier_def RecordWriteSlow_def BaseRecordWrite_def
      WhiteToGreyAndPush_def WhiteToGrey_def RecordSlot_def RestartIfNotMarking_def Let_def
      split: prod.splits option.splits if_splits)

lemma NotifyLeftTrimming_keeps: "keeps_barrier s (NotifyLeftTrimming fl s from_obj to_obj)"
  by (auto simp: keeps_barrier_def NotifyLeftTrimming_def Let_def RestartIfNotMarking_def
      split: prod.splits)

theorem reachable_inactive_invariant:
  assumes "reachable pages s" and "pages_disjoint pages"
  shows "inactive_invariant pages s"
  using assms
proof (induction rule: reachable.induct)
  case (stopped s)
  then show ?case by (simp add: inactive_invariant_def)
next
  case (Start s h fl)
  then show ?case by (simp add: Start_invariant)
next
  case (Stop s h)
  then show ?case using Stop_invariant [of h s] by simp
next
  case (Step s h fl bytes_to_process action completion step_origin s' n)
  then show ?case using keeps_barrier_invariant [OF _ Step_keeps] by blast
next
  case (AdvanceIncrementalMarkingOnAllocation s h fl s')
  then show ?case using keeps_barrier_invariant [OF _ Advance_keeps] by blast
next
  case (FinalizeIncrementally s h fl)
  then show ?case
    by (auto simp: inactive_invariant_def FinalizeIncrementally_state IsMarking_def)
next
  case (RecordWriteSlow s fl obj slot_ptr val)
  then show ?case using keeps_barrier_invariant [OF _ RecordWriteSlow_keeps] by blast
next
  case (NotifyLeftTrimming s fl from_obj to_obj)
  then show ?case using keeps_barrier_invariant [OF _ NotifyLeftTrimming_keeps] by blast
next
  case (UpdateMarkingWorklistAfterScavenge s h)
  then show ?case
    by (auto simp: inactive_invariant_def barrier_idle_def UpdateMarkingWorklistAfterScavenge_def
        Let_def)
next
  case (Epilogue s)
  then show ?case by (auto simp: inactive_invariant_def barrier_idle_def Epilogue_def)
qed

text \<open>
  Claim C8. Every page belongs to one space (the precondition on the pages of new
  space). For every call to Stop from SWEEPING, MARKING or COMPLETE, where a marker in
  SWEEPING is one that was reached from a stopped marker: on return the observer of
  every space is detached, every RecordWrite stub is in store-buffer-only mode, the
  barrier flags of every page are deactivated, no stack-guard GC request is pending,
  the state is STOPPED, \<open>is_compacting\<close>, \<open>black_allocation\<close> and \<open>should_hurry\<close>
  are false, and the worklist is unchanged. In SWEEPING the stubs and the page flags
  are not written: they are at rest already.
\<close>

theorem Stop_effect:
  assumes "state s \<noteq> STOPPED"
      and "set (space_pages h NEW_SPACE) \<inter>
           (set (space_pages h OLD_SPACE) \<union> set (space_pages h MAP_SPACE) \<union>
            set (space_pages h CODE_SPACE) \<union> set (space_pages h LO_SPACE)) = {}"
  shows "(\<forall>sp. observer_of sp \<notin> allocation_observers (Stop h s) sp) \<and>
     ((state s = SWEEPING \<longrightarrow> reachable (space_pages h) s) \<longrightarrow>
        (\<forall>e \<in> set (code_stubs (Stop h s)).
            IsKey e \<and> MajorKeyIsRecordWrite e \<and> IsCode e \<longrightarrow> stub_mode e = STORE_BUFFER_ONLY) \<and>
        (\<forall>p \<in> set (space_pages h OLD_SPACE) \<union> set (space_pages h MAP_SPACE) \<union>
               set (space_pages h CODE_SPACE) \<union> set (space_pages h LO_SPACE).
            p \<notin> POINTERS_TO_HERE_ARE_INTERESTING (Stop h s) \<and>
            p \<in> POINTERS_FROM_HERE_ARE_INTERESTING (Stop h s)) \<and>
        (\<forall>p \<in> set (space_pages h NEW_SPACE).
            p \<in> POINTERS_TO_HERE_ARE_INTERESTING (Stop h s) \<and>
            p \<notin> POINTERS_FROM_HERE_ARE_INTERESTING (Stop h s))) \<and>
     (state s = SWEEPING \<longrightarrow>
        code_stubs (Stop h s) = code_stubs s \<and>
        POINTERS_TO_HERE_ARE_INTERESTING (Stop h s) = POINTERS_TO_HERE_ARE_INTERESTING s \<and>
        POINTERS_FROM_HERE_ARE_INTERESTING (Stop h s) = POINTERS_FROM_HERE_ARE_INTERESTING s) \<and>
     \<not> stack_guard_gc_requested (Stop h s) \<and>
     state (Stop h s) = STOPPED \<and>
     \<not> is_compacting (Stop h s) \<and>
     \<not> black_allocation (Stop h s) \<and>
     \<not> should_hurry (Stop h s) \<and>
     worklist (Stop h s) = worklist s"
proof (cases "IsMarking s")
  case True
  then show ?thesis
    using assms
    by (auto simp: Stop_def IsStopped_def IsMarking_def Let_def RemoveAllocationObserver_all
        DeactivateIncrementalWriteBarrier_flags PatchIncrementalMarkingRecordWriteStubs_def
        FinishBlackAllocation_def)
next
  case False
  then have sw: "state s = SWEEPING"
    using assms(1) by (cases "state s") (simp_all add: IsMarking_def)
  have pd: "pages_disjoint (space_pages h)" using assms(2) by (simp add: pages_disjoint_def)
  have idle: "reachable (space_pages h) s \<longrightarrow> barrier_idle (space_pages h) s"
    using reachable_inactive_invariant [OF _ pd, of s] sw
    by (simp add: inactive_invariant_def)
  show ?thesis
    using idle sw
    by (auto simp: Stop_def IsStopped_def IsMarking_def Let_def RemoveAllocationObserver_all
        FinishBlackAllocation_def barrier_idle_def)
qed

text \<open>
  The theorem at a marker in the middle of a compacting cycle, and at a marker that
  Start has left in SWEEPING because the sweeper was still at work.
\<close>

lemma sweeping_state_reachable:
  "reachable (space_pages sweeping_heap) (Start example_flags sweeping_heap idle_state)"
proof (rule reachable.Start)
  show "reachable (space_pages sweeping_heap) idle_state"
    by (rule reachable.stopped)
       (simp_all add: idle_state_def example_state_def barrier_idle_def sweeping_heap_def
          paged_heap_def example_heap_def record_write_stub_def)
  show "state idle_state = STOPPED" by (simp add: idle_state_def)
  show "space_pages sweeping_heap = space_pages sweeping_heap" by simp
qed

theorem Stop_effect_witness:
  "state active_state \<noteq> STOPPED \<and>
   map stub_mode (code_stubs (Stop paged_heap active_state)) = [STORE_BUFFER_ONLY] \<and>
   POINTERS_TO_HERE_ARE_INTERESTING (Stop paged_heap active_state) = {1} \<and>
   POINTERS_FROM_HERE_ARE_INTERESTING (Stop paged_heap active_state) = {2} \<and>
   allocation_observers (Stop paged_heap active_state) NEW_SPACE = {} \<and>
   state (Stop paged_heap active_state) = STOPPED \<and>
   worklist (Stop paged_heap active_state) = \<lparr>shared = [8, 12], bailout = [], capacity = None\<rparr> \<and>
   state (Start example_flags sweeping_heap idle_state) = SWEEPING \<and>
   reachable (space_pages sweeping_heap) (Start example_flags sweeping_heap idle_state) \<and>
   allocation_observers (Start example_flags sweeping_heap idle_state) NEW_SPACE =
     {new_generation_observer} \<and>
   state (Stop sweeping_heap (Start example_flags sweeping_heap idle_state)) = STOPPED \<and>
   map stub_mode (code_stubs (Stop sweeping_heap (Start example_flags sweeping_heap idle_state))) =
     [STORE_BUFFER_ONLY] \<and>
   POINTERS_TO_HERE_ARE_INTERESTING
     (Stop sweeping_heap (Start example_flags sweeping_heap idle_state)) = {1} \<and>
   POINTERS_FROM_HERE_ARE_INTERESTING
     (Stop sweeping_heap (Start example_flags sweeping_heap idle_state)) = {2} \<and>
   allocation_observers (Stop sweeping_heap (Start example_flags sweeping_heap idle_state))
     NEW_SPACE = {}"
proof -
  have h1: "state active_state \<noteq> STOPPED"
    by (simp add: active_state_def example_state_def)
  have h2: "set (space_pages paged_heap NEW_SPACE) \<inter>
           (set (space_pages paged_heap OLD_SPACE) \<union> set (space_pages paged_heap MAP_SPACE) \<union>
            set (space_pages paged_heap CODE_SPACE) \<union> set (space_pages paged_heap LO_SPACE)) = {}"
    by (simp add: paged_heap_def example_heap_def)
  have h3: "state active_state = SWEEPING \<longrightarrow> reachable (space_pages paged_heap) active_state"
    by (simp add: active_state_def example_state_def)
  have pages: "space_pages paged_heap NEW_SPACE = [1]" "space_pages paged_heap OLD_SPACE = [2]"
    "space_pages paged_heap MAP_SPACE = []" "space_pages paged_heap CODE_SPACE = []"
    "space_pages paged_heap LO_SPACE = []"
    by (simp_all add: paged_heap_def example_heap_def)
  have a: "map stub_mode (code_stubs (Stop paged_heap active_state)) = [STORE_BUFFER_ONLY] \<and>
   POINTERS_TO_HERE_ARE_INTERESTING (Stop paged_heap active_state) = {1} \<and>
   POINTERS_FROM_HERE_ARE_INTERESTING (Stop paged_heap active_state) = {2} \<and>
   allocation_observers (Stop paged_heap active_state) NEW_SPACE = {} \<and>
   state (Stop paged_heap active_state) = STOPPED \<and>
   worklist (Stop paged_heap active_state) = \<lparr>shared = [8, 12], bailout = [], capacity = None\<rparr>"
    using h1 h3 Stop_effect [OF h1 h2]
    by (simp add: Stop_def IsStopped_def IsMarking_def Let_def RemoveAllocationObserver_all
        DeactivateIncrementalWriteBarrier_flags PatchIncrementalMarkingRecordWriteStubs_def
        FinishBlackAllocation_def pages active_state_def example_state_def
        record_write_stub_def)
       auto
  let ?s = "Start example_flags sweeping_heap idle_state"
  have st: "state ?s = SWEEPING"
    "code_stubs ?s = [record_write_stub STORE_BUFFER_ONLY]"
    "POINTERS_TO_HERE_ARE_INTERESTING ?s = {1}"
    "POINTERS_FROM_HERE_ARE_INTERESTING ?s = {2}"
    "allocation_observers ?s NEW_SPACE = {new_generation_observer}"
    by (simp_all add: Start_def Let_def sweeping_heap_def paged_heap_def example_heap_def
        all_spaces_def AddAllocationObserver_def idle_state_def example_state_def observer_of_def)
  have g1: "state ?s \<noteq> STOPPED" by (simp add: st)
  have g2: "set (space_pages sweeping_heap NEW_SPACE) \<inter>
           (set (space_pages sweeping_heap OLD_SPACE) \<union> set (space_pages sweeping_heap MAP_SPACE) \<union>
            set (space_pages sweeping_heap CODE_SPACE) \<union> set (space_pages sweeping_heap LO_SPACE)) = {}"
    by (simp add: sweeping_heap_def paged_heap_def example_heap_def)
  have g3: "state ?s = SWEEPING \<longrightarrow> reachable (space_pages sweeping_heap) ?s"
    using sweeping_state_reachable by simp
  note T = Stop_effect [OF g1 g2]
  have b1: "state (Stop sweeping_heap ?s) = STOPPED" using T by simp
  have cs: "code_stubs (Stop sweeping_heap ?s) = [record_write_stub STORE_BUFFER_ONLY]"
    and tf: "POINTERS_TO_HERE_ARE_INTERESTING (Stop sweeping_heap ?s) = {1}"
      "POINTERS_FROM_HERE_ARE_INTERESTING (Stop sweeping_heap ?s) = {2}"
    using T g3 by (simp_all add: st)
  have ob: "allocation_observers (Stop sweeping_heap ?s) NEW_SPACE = {}"
    by (simp add: Stop_def IsStopped_def IsMarking_def Let_def RemoveAllocationObserver_all
        FinishBlackAllocation_def st observer_of_def)
  have ob0: "allocation_observers ?s NEW_SPACE = {new_generation_observer}"
    by (simp add: st)
  show ?thesis
    using h1 a st(1) sweeping_state_reachable b1 cs tf ob ob0
    by (simp add: record_write_stub_def)
qed

end
